theory Spec2Isabelle
  imports Main "HOL-Library.Monad_Syntax"
begin

unbundle bit_operations_syntax

section \<open>Matrix Life: configuration constants\<close>

text \<open>
  The sketch \<^verbatim>\<open>Matrix_Life.ino\<close> runs a five-state life-like automaton on a
  128 x 64 LED matrix. C \<^verbatim>\<open>int\<close> values are modelled as \<^typ>\<open>int\<close>: every quantity
  of the sketch stays far below \<open>2^31\<close> (coordinates below 128, the activity
  accumulator at most 8192), so no operation wraps. An access to a C array outside
  its extent is undefined behaviour; it is the value \<open>None\<close> of the model.
\<close>

definition HEIGHT :: int where
  "HEIGHT = 64"

definition WIDTH :: int where
  "WIDTH = 128"

text \<open>
  Colours are the arguments handed to \<^verbatim>\<open>matrix.color565\<close>; the display library is
  not part of the sketch, so the packed value stays opaque.
\<close>

datatype colour = Color565 nat nat nat

definition BLACK :: colour where
  "BLACK = Color565 0 0 0"

definition DARK_BLUE :: colour where
  "DARK_BLUE = Color565 0 20 64"

definition GREEN :: colour where
  "GREEN = Color565 0 128 38"

definition DARK_ORANGE :: colour where
  "DARK_ORANGE = Color565 64 36 0"

definition PETROL_BLUE :: colour where
  "PETROL_BLUE = Color565 0 8 8"

section \<open>Rule table\<close>

record rule =
  colour :: colour
  alive :: int
  rule :: "int list"

definition rules :: "rule list" where
  "rules =
    [\<lparr>colour = BLACK, alive = 0, rule = [0, 0, 0, 1, 0, 0, 1, 0, 0]\<rparr>,
     \<lparr>colour = DARK_BLUE, alive = 1, rule = [3, 3, 2, 2, 3, 3, 3, 3, 3]\<rparr>,
     \<lparr>colour = GREEN, alive = 1, rule = [3, 3, 2, 2, 3, 3, 3, 3, 3]\<rparr>,
     \<lparr>colour = DARK_ORANGE, alive = 0, rule = [4, 4, 4, 1, 4, 4, 1, 4, 4]\<rparr>,
     \<lparr>colour = PETROL_BLUE, alive = 0, rule = [4, 4, 0, 1, 0, 0, 1, 0, 0]\<rparr>]"

text \<open>Reading a C array: defined inside the extent only.\<close>

definition index :: "'a list \<Rightarrow> int \<Rightarrow> 'a option" where
  "index xs i = (if 0 \<le> i \<and> i < int (length xs) then Some (xs ! nat i) else None)"

section \<open>Shape library\<close>

text \<open>
  \<^verbatim>\<open>struct shape { int width, height; char shape[]; }\<close>: the mask is the string
  literal of the initialiser, row after row.
\<close>

record shape =
  width :: int
  height :: int
  shape :: string

definition GLIDER :: shape where
  "GLIDER = \<lparr>width = 3, height = 3, shape =
     '' 1 '' @
     ''  1'' @
     ''111''\<rparr>"

definition GLIDER2 :: shape where
  "GLIDER2 = \<lparr>width = 3, height = 3, shape =
     '' 1 '' @
     ''1  '' @
     ''111''\<rparr>"

definition GLIDER3 :: shape where
  "GLIDER3 = \<lparr>width = 3, height = 3, shape =
     ''111'' @
     ''1  '' @
     '' 1 ''\<rparr>"

definition GLIDER4 :: shape where
  "GLIDER4 = \<lparr>width = 3, height = 3, shape =
     ''111'' @
     ''  1'' @
     '' 1 ''\<rparr>"

definition LWSS :: shape where
  "LWSS = \<lparr>width = 5, height = 4, shape =
     ''1  1 '' @
     ''    1'' @
     ''1   1'' @
     '' 1111''\<rparr>"

definition MWSS :: shape where
  "MWSS = \<lparr>width = 6, height = 5, shape =
     ''11111 '' @
     ''1    1'' @
     ''1     '' @
     '' 1   1'' @
     ''   1  ''\<rparr>"

definition HWSS :: shape where
  "HWSS = \<lparr>width = 7, height = 5, shape =
     '' 111111'' @
     ''1     1'' @
     ''      1'' @
     ''1    1 '' @
     ''  11   ''\<rparr>"

definition RPENT :: shape where
  "RPENT = \<lparr>width = 3, height = 3, shape =
     '' 11'' @
     ''11 '' @
     '' 1 ''\<rparr>"

definition DIEHARD :: shape where
  "DIEHARD = \<lparr>width = 8, height = 3, shape =
     ''       1'' @
     ''11      '' @
     '' 1   111''\<rparr>"

definition ACORN :: shape where
  "ACORN = \<lparr>width = 7, height = 3, shape =
     '' 1     '' @
     ''   1   '' @
     ''11  111''\<rparr>"

definition seeds :: "shape list" where
  "seeds = [GLIDER, GLIDER2, GLIDER3, GLIDER4, LWSS, MWSS, HWSS,
            RPENT, RPENT, DIEHARD, DIEHARD, ACORN, ACORN]"

definition seedsC :: int where
  "seedsC = int (length seeds)"

section \<open>Program state\<close>

text \<open>
  The globals of the sketch: the two state arrays \<^verbatim>\<open>state[2][WIDTH][HEIGHT]\<close>, the
  buffer roles \<^verbatim>\<open>now\<close> and \<^verbatim>\<open>next\<close> (field \<open>nxt\<close>), the frame buffer that
  \<^verbatim>\<open>matrix.drawPixel\<close> writes, and the random source.
\<close>

record life =
  state :: "int \<Rightarrow> int \<Rightarrow> int \<Rightarrow> int"
  now :: int
  nxt :: int
  pixels :: "int \<Rightarrow> int \<Rightarrow> colour"
  rnd :: "nat \<Rightarrow> nat"

definition get_cell :: "life \<Rightarrow> int \<Rightarrow> int \<Rightarrow> int \<Rightarrow> int option" where
  "get_cell st b x y =
     (if 0 \<le> b \<and> b < 2 \<and> 0 \<le> x \<and> x < WIDTH \<and> 0 \<le> y \<and> y < HEIGHT
      then Some (state st b x y) else None)"

definition set_cell :: "life \<Rightarrow> int \<Rightarrow> int \<Rightarrow> int \<Rightarrow> int \<Rightarrow> life option" where
  "set_cell st b x y v =
     (if 0 \<le> b \<and> b < 2 \<and> 0 \<le> x \<and> x < WIDTH \<and> 0 \<le> y \<and> y < HEIGHT
      then Some (st\<lparr>state := (state st)(b := (state st b)(x := (state st b x)(y := v)))\<rparr>)
      else None)"

text \<open>
  Modelled from the spec: \<^verbatim>\<open>matrix.drawPixel\<close> belongs to the display library, which
  is not in the repository. The display sink takes a position and a display attribute
  for a cell of the panel.
\<close>

definition drawPixel :: "int \<Rightarrow> int \<Rightarrow> colour \<Rightarrow> life \<Rightarrow> life" where
  "drawPixel x y c st =
     (if 0 \<le> x \<and> x < WIDTH \<and> 0 \<le> y \<and> y < HEIGHT
      then st\<lparr>pixels := (pixels st)(x := (pixels st x)(y := c))\<rparr> else st)"

text \<open>
  Modelled from the spec: \<^verbatim>\<open>random\<close> belongs to the board's core library, which is
  not in the repository. The random source supplies integers in \<open>[lo, hi)\<close>. Its
  state, the field \<open>rnd\<close>, is the stream of raw values still to come; every sequence
  of draws in range is the image of some stream.
\<close>

definition random_range :: "int \<Rightarrow> int \<Rightarrow> (nat \<Rightarrow> nat) \<Rightarrow> int \<times> (nat \<Rightarrow> nat)" where
  "random_range lo hi r =
     (if hi \<le> lo then (lo, r)
      else (lo + int (r 0) mod (hi - lo), (\<lambda>k. r (Suc k))))"

definition random_below :: "int \<Rightarrow> (nat \<Rightarrow> nat) \<Rightarrow> int \<times> (nat \<Rightarrow> nat)" where
  "random_below howbig r = random_range 0 howbig r"

text \<open>
  The globals as the initialisers and \<^verbatim>\<open>setup\<close> leave them: both grids all Dead, the
  panel black, the random source seeded from outside.
\<close>

definition init :: "(nat \<Rightarrow> nat) \<Rightarrow> life" where
  "init r = \<lparr>state = (\<lambda>b x y. 0), now = 0, nxt = 1, pixels = (\<lambda>x y. BLACK), rnd = r\<rparr>"

section \<open>Transition engine\<close>

text \<open>The expression \<^verbatim>\<open>rules[state[now][x][y]].alive\<close>.\<close>

definition alive_at :: "life \<Rightarrow> int \<Rightarrow> int \<Rightarrow> int option" where
  "alive_at st x y =
     do { s \<leftarrow> get_cell st (now st) x y;
          r \<leftarrow> index rules s;
          Some (alive r) }"

text \<open>The wrapped neighbour coordinates and the count \<^verbatim>\<open>n\<close> of a cell.\<close>

definition neighbours :: "life \<Rightarrow> int \<Rightarrow> int \<Rightarrow> int option" where
  "neighbours st x y =
     (let l = (if x = 0 then WIDTH - 1 else x - 1);
          r = (if x = WIDTH - 1 then 0 else x + 1);
          u = (if y = 0 then HEIGHT - 1 else y - 1);
          d = (if y = HEIGHT - 1 then 0 else y + 1)
      in do { lu \<leftarrow> alive_at st l u; xu \<leftarrow> alive_at st x u; ru \<leftarrow> alive_at st r u;
              ly \<leftarrow> alive_at st l y; ry \<leftarrow> alive_at st r y;
              ld \<leftarrow> alive_at st l d; xd \<leftarrow> alive_at st x d; rd \<leftarrow> alive_at st r d;
              Some (lu + xu + ru + ly + ry + ld + xd + rd) })"

text \<open>
  The body of the inner loop, on the pair of the state and the activity
  accumulator \<^verbatim>\<open>lc\<close>.
\<close>

definition cell :: "int \<Rightarrow> int \<Rightarrow> life \<times> int \<Rightarrow> (life \<times> int) option" where
  "cell x y = (\<lambda>(st, lc).
     do { s \<leftarrow> get_cell st (now st) x y;
          n \<leftarrow> neighbours st x y;
          rs \<leftarrow> index rules s;
          ns \<leftarrow> index (rule rs) n;
          rns \<leftarrow> index rules ns;
          st' \<leftarrow> set_cell st (nxt st) x y ns;
          Some (drawPixel x y (colour rns) st', lc + alive rns) })"

function for_x :: "int \<Rightarrow> int \<Rightarrow> life \<times> int \<Rightarrow> (life \<times> int) option" where
  "for_x y x f =
     (if x < WIDTH
      then (case cell x y f of None \<Rightarrow> None | Some f' \<Rightarrow> for_x y (x + 1) f')
      else Some f)"
  by pat_completeness auto
termination
  by (relation "measure (\<lambda>(y, x, f). nat (WIDTH - x))") auto

declare for_x.simps [simp del]

function for_y :: "int \<Rightarrow> life \<times> int \<Rightarrow> (life \<times> int) option" where
  "for_y y f =
     (if y < HEIGHT
      then (case for_x y 0 f of None \<Rightarrow> None | Some f' \<Rightarrow> for_y (y + 1) f')
      else Some f)"
  by pat_completeness auto
termination
  by (relation "measure (\<lambda>(y, f). nat (HEIGHT - y))") auto

declare for_y.simps [simp del]

text \<open>The two nested loops of \<^verbatim>\<open>loop\<close>, started with \<^verbatim>\<open>lc = 0\<close>.\<close>

definition transition :: "life \<Rightarrow> (life \<times> int) option" where
  "transition st = for_y 0 (st, 0)"

definition swap :: "life \<Rightarrow> life" where
  "swap st = st\<lparr>now := now st XOR 1, nxt := nxt st XOR 1\<rparr>"

section \<open>Seeder\<close>

function stamp_x ::
  "shape \<Rightarrow> int \<Rightarrow> int \<Rightarrow> int \<Rightarrow> int \<Rightarrow> int \<times> life \<Rightarrow> (int \<times> life) option" where
  "stamp_x sh px py y x f =
     (if x < width sh
      then (case index (shape sh) (fst f) of
              None \<Rightarrow> None
            | Some c \<Rightarrow>
                (case (if c = CHR ''1''
                       then set_cell (snd f) (now (snd f)) (px + x) (py + y) 2
                       else Some (snd f)) of
                   None \<Rightarrow> None
                 | Some st' \<Rightarrow> stamp_x sh px py y (x + 1) (fst f + 1, st')))
      else Some f)"
  by pat_completeness auto
termination
  by (relation "measure (\<lambda>(sh, px, py, y, x, f). nat (width sh - x))") auto

declare stamp_x.simps [simp del]

function stamp_y :: "shape \<Rightarrow> int \<Rightarrow> int \<Rightarrow> int \<Rightarrow> int \<times> life \<Rightarrow> (int \<times> life) option" where
  "stamp_y sh px py y f =
     (if y < height sh
      then (case stamp_x sh px py y 0 f of
              None \<Rightarrow> None
            | Some f' \<Rightarrow> stamp_y sh px py (y + 1) f')
      else Some f)"
  by pat_completeness auto
termination
  by (relation "measure (\<lambda>(sh, px, py, y, f). nat (height sh - y))") auto

declare stamp_y.simps [simp del]

text \<open>
  One pass of the outer loop of \<^verbatim>\<open>seed\<close>: three draws, then the overlay. The shape
  list and the inset are the sketch's constants \<^verbatim>\<open>seeds\<close> and 10; they are parameters
  here so that other configurations can be stated.
\<close>

definition seed_one :: "shape list \<Rightarrow> int \<Rightarrow> life \<Rightarrow> life option" where
  "seed_one lib inset st =
     (let (px, r1) = random_range inset (WIDTH - inset) (rnd st);
          (py, r2) = random_range inset (HEIGHT - inset) r1;
          (s, r3) = random_below (int (length lib)) r2
      in case index lib s of
           None \<Rightarrow> None
         | Some sh \<Rightarrow> map_option snd (stamp_y sh px py 0 (0, st\<lparr>rnd := r3\<rparr>)))"

function seed_loop :: "shape list \<Rightarrow> int \<Rightarrow> int \<Rightarrow> int \<Rightarrow> life \<Rightarrow> life option" where
  "seed_loop lib inset n i st =
     (if i < n
      then (case seed_one lib inset st of
              None \<Rightarrow> None
            | Some st' \<Rightarrow> seed_loop lib inset n (i + 1) st')
      else Some st)"
  by pat_completeness auto
termination
  by (relation "measure (\<lambda>(lib, inset, n, i, st). nat (n - i))") auto

declare seed_loop.simps [simp del]

definition seed :: "int \<Rightarrow> life \<Rightarrow> life option" where
  "seed n st = seed_loop seeds 10 n 0 st"

section \<open>Cycle driver\<close>

text \<open>
  \<^verbatim>\<open>loop\<close> without the frame pacing, the banner and \<^verbatim>\<open>matrix.show\<close>, which
  touch neither the grids nor the accumulator.
\<close>

definition loop :: "life \<Rightarrow> life option" where
  "loop st =
     (case transition st of
        None \<Rightarrow> None
      | Some (st1, lc) \<Rightarrow>
          (let st2 = swap st1
           in if lc < HEIGHT * WIDTH div 25 then seed 1 st2 else Some st2))"

section \<open>Startup\<close>

text \<open>
  \<^verbatim>\<open>err\<close> blinks the LED in a loop without exit; the counter is a \<^verbatim>\<open>uint8_t\<close>. A call
  that never returns is the value \<open>None\<close>.
\<close>

partial_function (option) err :: "int \<Rightarrow> nat \<Rightarrow> unit option" where
  "err x i = err x ((i + 1) mod 256)"

text \<open>
  \<^verbatim>\<open>setup\<close>, here \<open>setup_board\<close>. The results of \<^verbatim>\<open>matrix.begin()\<close> and of
  \<^verbatim>\<open>accel.begin(0x19)\<close> come from libraries outside the repository and are
  parameters, as is the stream that \<^verbatim>\<open>randomSeed(analogRead(0))\<close> selects. The globals
  then have their initial values.
\<close>

definition setup_board :: "bool \<Rightarrow> bool \<Rightarrow> (nat \<Rightarrow> nat) \<Rightarrow> life option" where
  "setup_board status_ok accel_ok entropy =
     do { _ \<leftarrow> (if \<not> status_ok then err 500 1 else Some ());
          _ \<leftarrow> (if \<not> accel_ok then err 250 1 else Some ());
          Some (init entropy) }"

section \<open>Specification vocabulary\<close>

text \<open>
  The predicates and functions below state the properties; they are not part of the
  sketch. \<open>roles_ok\<close> says that the two buffer roles are the two buffers, as they are from
  the initialisers \<^verbatim>\<open>now = 0, next = 1\<close> on; \<open>valid_grid\<close> says that every cell
  of a grid is an index into \<open>rules\<close>.
\<close>

subsection \<open>States and grids\<close>

text \<open>Coordinates inside the grid are \<open>inb\<close>; two grids are compared on them.\<close>

definition roles_ok :: "life \<Rightarrow> bool" where
  "roles_ok st \<longleftrightarrow> (now st = 0 \<and> nxt st = 1) \<or> (now st = 1 \<and> nxt st = 0)"

definition inb :: "int \<Rightarrow> int \<Rightarrow> bool" where
  "inb x y \<longleftrightarrow> 0 \<le> x \<and> x < WIDTH \<and> 0 \<le> y \<and> y < HEIGHT"

definition valid_grid :: "(int \<Rightarrow> int \<Rightarrow> int) \<Rightarrow> bool" where
  "valid_grid g \<longleftrightarrow> (\<forall>x y. inb x y \<longrightarrow> 0 \<le> g x y \<and> g x y < int (length rules))"

text \<open>Every cell of both buffers is an index into \<open>rules\<close>.\<close>

definition valid :: "life \<Rightarrow> bool" where
  "valid st \<longleftrightarrow> valid_grid (state st 0) \<and> valid_grid (state st 1)"

text \<open>The grid in the current role.\<close>

definition current :: "life \<Rightarrow> int \<Rightarrow> int \<Rightarrow> int" where
  "current st = state st (now st)"

definition same_grid :: "(int \<Rightarrow> int \<Rightarrow> int) \<Rightarrow> (int \<Rightarrow> int \<Rightarrow> int) \<Rightarrow> bool" where
  "same_grid g h \<longleftrightarrow> (\<forall>x y. inb x y \<longrightarrow> g x y = h x y)"

definition grid_box :: "(int \<times> int) set" where
  "grid_box = {0..<WIDTH} \<times> {0..<HEIGHT}"

subsection \<open>The transition as a function of the grid\<close>

text \<open>
  The alive flag of a state, the eight cells around a cell on the torus, their number of
  alive flags, and the entry of the rule table that the cell's state and that number
  select.
\<close>

definition aliveFlag :: "int \<Rightarrow> int" where
  "aliveFlag s = alive (rules ! nat s)"

definition offsets :: "(int \<times> int) list" where
  "offsets = [(-1, -1), (0, -1), (1, -1), (-1, 0), (1, 0), (-1, 1), (0, 1), (1, 1)]"

definition wrapped_neighbours :: "int \<Rightarrow> int \<Rightarrow> (int \<times> int) list" where
  "wrapped_neighbours x y = map (\<lambda>(dx, dy). ((x + dx) mod WIDTH, (y + dy) mod HEIGHT)) offsets"

definition count8 :: "(int \<Rightarrow> int \<Rightarrow> int) \<Rightarrow> int \<Rightarrow> int \<Rightarrow> int" where
  "count8 g x y = (\<Sum>(a, b) \<leftarrow> wrapped_neighbours x y. aliveFlag (g a b))"

definition next_state :: "(int \<Rightarrow> int \<Rightarrow> int) \<Rightarrow> int \<Rightarrow> int \<Rightarrow> int" where
  "next_state g x y = rule (rules ! nat (g x y)) ! nat (count8 g x y)"

text \<open>
  \<open>stepped P st st'\<close>: from \<open>st\<close> to \<open>st'\<close> the cells \<open>P\<close> of the next buffer and of
  the panel were written from the current grid of \<open>st\<close>, and nothing else changed.
\<close>

definition stepped :: "(int \<times> int) set \<Rightarrow> life \<Rightarrow> life \<Rightarrow> bool" where
  "stepped P st st' \<longleftrightarrow>
     now st' = now st \<and> nxt st' = nxt st \<and> rnd st' = rnd st \<and>
     (\<forall>b x y. state st' b x y =
        (if b = nxt st \<and> (x, y) \<in> P then next_state (state st (now st)) x y
         else state st b x y)) \<and>
     (\<forall>x y. pixels st' x y =
        (if (x, y) \<in> P then colour (rules ! nat (next_state (state st (now st)) x y))
         else pixels st x y))"

text \<open>The activity of a grid: the sum of the alive flags of its cells.\<close>

definition activity :: "(int \<Rightarrow> int \<Rightarrow> int) \<Rightarrow> int" where
  "activity g = (\<Sum>y \<in> {0..<HEIGHT}. \<Sum>x \<in> {0..<WIDTH}. aliveFlag (g x y))"

text \<open>
  Repeated cycles in which the seeder is not called: the two loops of \<^verbatim>\<open>loop\<close>, then
  the swap of the buffer roles.
\<close>

fun steps :: "nat \<Rightarrow> life \<Rightarrow> life option" where
  "steps 0 st = Some st"
| "steps (Suc n) st =
     (case transition st of None \<Rightarrow> None | Some (st', lc) \<Rightarrow> steps n (swap st'))"

text \<open>A number of passes of \<^verbatim>\<open>loop\<close>, as the board runs them one after the other.\<close>

fun cycles :: "nat \<Rightarrow> life \<Rightarrow> life option" where
  "cycles 0 st = Some st"
| "cycles (Suc k) st = (case loop st of None \<Rightarrow> None | Some st' \<Rightarrow> cycles k st')"

subsection \<open>The two-state rule\<close>

text \<open>
  The two-state reference automaton, written from the rule's name B36/S23 and not from
  the table: a cell is alive or dead, a dead cell is born with exactly 3 or 6 live
  neighbours, a live cell survives with exactly 2 or 3, on the same torus.
\<close>

definition is_alive :: "int \<Rightarrow> bool" where
  "is_alive s \<longleftrightarrow> s = 1 \<or> s = 2"

definition project :: "(int \<Rightarrow> int \<Rightarrow> int) \<Rightarrow> int \<Rightarrow> int \<Rightarrow> bool" where
  "project g x y = is_alive (g x y)"

definition live_neighbours :: "(int \<Rightarrow> int \<Rightarrow> bool) \<Rightarrow> int \<Rightarrow> int \<Rightarrow> nat" where
  "live_neighbours c x y = length (filter (\<lambda>(a, b). c a b) (wrapped_neighbours x y))"

definition highlife :: "(int \<Rightarrow> int \<Rightarrow> bool) \<Rightarrow> int \<Rightarrow> int \<Rightarrow> bool" where
  "highlife c x y =
     (let n = live_neighbours c x y
      in if c x y then n = 2 \<or> n = 3 else n = 3 \<or> n = 6)"

subsection \<open>Shapes on the grid\<close>

text \<open>
  The mask of a shape as the spec reads it: \<open>isAlive sh x y\<close> holds when the row-major
  entry of \<open>(x, y)\<close> is the character 1.
\<close>

definition isAlive :: "shape \<Rightarrow> int \<Rightarrow> int \<Rightarrow> bool" where
  "isAlive sh x y \<longleftrightarrow>
     0 \<le> x \<and> x < width sh \<and> 0 \<le> y \<and> y < height sh
     \<and> shape sh ! nat (y * width sh + x) = CHR ''1''"

text \<open>The cells that a shape placed at \<open>(px, py)\<close> covers.\<close>

definition footprint :: "int \<times> int \<times> shape \<Rightarrow> (int \<times> int) set" where
  "footprint p = (case p of (px, py, sh) \<Rightarrow> {(px + x, py + y) | x y. isAlive sh x y})"

text \<open>
  \<open>seeded S st st'\<close>: from \<open>st\<close> to \<open>st'\<close> the cells \<open>S\<close> of the current buffer were set
  to 2 and nothing else of the grids, the roles or the panel changed.
\<close>

definition seeded :: "(int \<times> int) set \<Rightarrow> life \<Rightarrow> life \<Rightarrow> bool" where
  "seeded S st st' \<longleftrightarrow>
     now st' = now st \<and> nxt st' = nxt st \<and> pixels st' = pixels st \<and>
     (\<forall>b x y. state st' b x y = (if b = now st \<and> (x, y) \<in> S then 2 else state st b x y))"

text \<open>
  The origin and the shape that one pass of \<^verbatim>\<open>seed\<close> draws from a stream, and
  the list of them for a number of passes.
\<close>

definition draw :: "(nat \<Rightarrow> nat) \<Rightarrow> (int \<times> int \<times> shape) \<times> (nat \<Rightarrow> nat)" where
  "draw r =
     (let (px, r1) = random_range 10 (WIDTH - 10) r;
          (py, r2) = random_range 10 (HEIGHT - 10) r1;
          (s, r3) = random_below seedsC r2
      in ((px, py, seeds ! nat s), r3))"

fun placements :: "nat \<Rightarrow> (nat \<Rightarrow> nat) \<Rightarrow> (int \<times> int \<times> shape) list" where
  "placements 0 r = []"
| "placements (Suc n) r = fst (draw r) # placements n (snd (draw r))"

text \<open>
  A shape whose mask has an entry for every cell of its extent, and the configuration
  invariant of the spec: the extent of a shape does not exceed the inset of the seeder.
\<close>

definition well_formed :: "shape \<Rightarrow> bool" where
  "well_formed sh \<longleftrightarrow>
     0 \<le> width sh \<and> 0 \<le> height sh \<and> height sh * width sh \<le> int (length (shape sh))"

definition extent_within :: "int \<Rightarrow> shape \<Rightarrow> bool" where
  "extent_within inset sh \<longleftrightarrow> width sh \<le> inset \<and> height sh \<le> inset"

text \<open>
  A grid that holds a 2 x 2 block of Survived cells with its corner at \<open>(ox, oy)\<close> and
  Dead cells elsewhere; the block may straddle the edge of the torus.
\<close>

definition block_grid :: "int \<Rightarrow> int \<Rightarrow> int \<Rightarrow> int \<Rightarrow> int" where
  "block_grid ox oy x y =
     (if (x = ox \<or> x = (ox + 1) mod WIDTH) \<and> (y = oy \<or> y = (oy + 1) mod HEIGHT)
      then 2 else 0)"

subsection \<open>Concrete inputs\<close>

text \<open>
  Streams, states and a shape on which the theorems are exercised: \<open>far\<close> makes the
  first draw the largest origin, and \<open>WIDE\<close> is wider than the inset.
\<close>

definition zeros :: "nat \<Rightarrow> nat" where
  "zeros k = 0"

definition nines :: "nat \<Rightarrow> nat" where
  "nines k = 9"

definition far :: "nat \<Rightarrow> nat" where
  "far k = 107"

definition corner_lit :: life where
  "corner_lit = (init zeros)\<lparr>state := (\<lambda>b x y. if x = WIDTH - 1 \<and> y = HEIGHT - 1 then 2 else 0)\<rparr>"

definition other_run :: life where
  "other_run = \<lparr>state = (\<lambda>b x y. if b = 0 then 3 else 0), now = 1, nxt = 0,
                 pixels = (\<lambda>x y. GREEN), rnd = zeros\<rparr>"

definition block_run :: life where
  "block_run = (init zeros)\<lparr>state := (\<lambda>b. block_grid 20 30)\<rparr>"

definition WIDE :: shape where
  "WIDE = \<lparr>width = 12, height = 1, shape = ''111111111111''\<rparr>"

section \<open>The transition engine, cell by cell\<close>

lemma length_rules: "length rules = 5"
  by (simp add: rules_def)

lemma state_cases: "0 \<le> s \<Longrightarrow> s < 5 \<Longrightarrow> s \<in> {0, 1, 2, 3, 4}" for s :: int
  by (simp add: insert_iff) arith

lemma count_cases: "0 \<le> n \<Longrightarrow> n \<le> 8 \<Longrightarrow> n \<in> {0, 1, 2, 3, 4, 5, 6, 7, 8}" for n :: int
  by (simp add: insert_iff) arith

lemma aliveFlag_simps:
  "aliveFlag 0 = 0" "aliveFlag 1 = 1" "aliveFlag 2 = 1" "aliveFlag 3 = 0" "aliveFlag 4 = 0"
  by (simp_all add: aliveFlag_def rules_def)

lemma aliveFlag_range: "0 \<le> s \<Longrightarrow> s < 5 \<Longrightarrow> 0 \<le> aliveFlag s \<and> aliveFlag s \<le> 1"
  using state_cases [of s] by (auto simp: aliveFlag_simps)

lemma wrap_left: "0 \<le> x \<Longrightarrow> x < WIDTH \<Longrightarrow> (if x = 0 then WIDTH - 1 else x - 1) = (x + (-1)) mod WIDTH"
  by (auto simp: WIDTH_def)

lemma wrap_right: "0 \<le> x \<Longrightarrow> x < WIDTH \<Longrightarrow> (if x = WIDTH - 1 then 0 else x + 1) = (x + 1) mod WIDTH"
  by (auto simp: WIDTH_def)

lemma wrap_up: "0 \<le> y \<Longrightarrow> y < HEIGHT \<Longrightarrow> (if y = 0 then HEIGHT - 1 else y - 1) = (y + (-1)) mod HEIGHT"
  by (auto simp: HEIGHT_def)

lemma wrap_down: "0 \<le> y \<Longrightarrow> y < HEIGHT \<Longrightarrow> (if y = HEIGHT - 1 then 0 else y + 1) = (y + 1) mod HEIGHT"
  by (auto simp: HEIGHT_def)

lemma alive_at_eq:
  assumes "roles_ok st" "valid_grid (state st (now st))" "inb x y"
  shows "alive_at st x y = Some (aliveFlag (state st (now st) x y))"
proof -
  from assms(1) have b: "0 \<le> now st \<and> now st < 2"
    by (auto simp: roles_ok_def)
  from assms(2,3) have s: "0 \<le> state st (now st) x y \<and> state st (now st) x y < int (length rules)"
    by (simp add: valid_grid_def)
  from assms(3) b have "get_cell st (now st) x y = Some (state st (now st) x y)"
    by (simp add: get_cell_def inb_def)
  with s show ?thesis
    by (simp add: alive_at_def index_def aliveFlag_def)
qed

lemma inb_mod: "inb (a mod WIDTH) (b mod HEIGHT)"
  by (simp add: inb_def WIDTH_def HEIGHT_def)

lemma neighbours_eq:
  assumes "roles_ok st" "valid_grid (state st (now st))" "inb x y"
  shows "neighbours st x y = Some (count8 (state st (now st)) x y)"
proof -
  define g where "g = state st (now st)"
  define l r u d where "l = (if x = 0 then WIDTH - 1 else x - 1)"
    and "r = (if x = WIDTH - 1 then 0 else x + 1)"
    and "u = (if y = 0 then HEIGHT - 1 else y - 1)"
    and "d = (if y = HEIGHT - 1 then 0 else y + 1)"
  from assms(3) have x: "0 \<le> x" "x < WIDTH" and y: "0 \<le> y" "y < HEIGHT"
    by (simp_all add: inb_def)
  have w: "l = (x + (-1)) mod WIDTH" "r = (x + 1) mod WIDTH"
    "u = (y + (-1)) mod HEIGHT" "d = (y + 1) mod HEIGHT"
    unfolding l_def r_def u_def d_def
    using wrap_left [OF x] wrap_right [OF x] wrap_up [OF y] wrap_down [OF y] by simp_all
  have xy: "x = (x + 0) mod WIDTH" "y = (y + 0) mod HEIGHT"
    using x y by simp_all
  have i: "inb l u" "inb x u" "inb r u" "inb l y" "inb r y" "inb l d" "inb x d" "inb r d"
    using x y by (auto simp: inb_def l_def r_def u_def d_def WIDTH_def HEIGHT_def)
  have a: "alive_at st a b = Some (aliveFlag (g a b))" if "inb a b" for a b
    unfolding g_def using alive_at_eq [OF assms(1,2) that] .
  have "neighbours st x y =
      Some (aliveFlag (g l u) + aliveFlag (g x u) + aliveFlag (g r u)
          + aliveFlag (g l y) + aliveFlag (g r y)
          + aliveFlag (g l d) + aliveFlag (g x d) + aliveFlag (g r d))"
    unfolding neighbours_def Let_def l_def [symmetric] r_def [symmetric]
      u_def [symmetric] d_def [symmetric]
    by (simp add: a i)
  also have "aliveFlag (g l u) + aliveFlag (g x u) + aliveFlag (g r u)
          + aliveFlag (g l y) + aliveFlag (g r y)
          + aliveFlag (g l d) + aliveFlag (g x d) + aliveFlag (g r d) = count8 g x y"
    unfolding count8_def wrapped_neighbours_def offsets_def w using xy by simp
  finally show ?thesis
    unfolding g_def .
qed

lemma rule_rows:
  "0 \<le> s \<Longrightarrow> s < 5 \<Longrightarrow> length (rule (rules ! nat s)) = 9"
  using state_cases [of s] by (auto simp: rules_def)

lemma rule_entries:
  assumes "0 \<le> s" "s < 5" "0 \<le> n" "n \<le> 8"
  shows "0 \<le> rule (rules ! nat s) ! nat n \<and> rule (rules ! nat s) ! nat n < 5"
  using state_cases [OF assms(1,2)] count_cases [OF assms(3,4)]
  by (auto simp: rules_def)

lemma count8_range:
  assumes "valid_grid g"
  shows "0 \<le> count8 g x y \<and> count8 g x y \<le> 8"
proof -
  define f where "f a b = aliveFlag (g ((x + a) mod WIDTH) ((y + b) mod HEIGHT))" for a b
  have h: "0 \<le> f a b \<and> f a b \<le> 1" for a b
    unfolding f_def
    using assms inb_mod [of "x + a" "y + b"]
      aliveFlag_range [of "g ((x + a) mod WIDTH) ((y + b) mod HEIGHT)"]
    by (simp add: valid_grid_def length_rules)
  have "count8 g x y = f (-1) (-1) + f 0 (-1) + f 1 (-1) + f (-1) 0 + f 1 0
                     + f (-1) 1 + f 0 1 + f 1 1"
    by (simp add: count8_def wrapped_neighbours_def offsets_def f_def)
  with h [of "-1" "-1"] h [of 0 "-1"] h [of 1 "-1"] h [of "-1" 0] h [of 1 0]
    h [of "-1" 1] h [of 0 1] h [of 1 1]
  show ?thesis
    by linarith
qed

lemma next_state_range:
  assumes "valid_grid g" "inb x y"
  shows "0 \<le> next_state g x y \<and> next_state g x y < 5"
  unfolding next_state_def
  using assms count8_range [OF assms(1), of x y]
  by (intro rule_entries) (simp_all add: valid_grid_def length_rules)

lemma cell_stepped:
  assumes "roles_ok st" "valid_grid (state st (now st))" "inb x y"
  shows "\<exists>st'. cell x y (st, lc)
            = Some (st', lc + aliveFlag (next_state (state st (now st)) x y))
          \<and> stepped {(x, y)} st st'"
proof -
  define g where "g = state st (now st)"
  from assms(1) have b: "0 \<le> now st \<and> now st < 2" "0 \<le> nxt st \<and> nxt st < 2"
    by (auto simp: roles_ok_def)
  from assms(2,3) have s: "0 \<le> g x y" "g x y < 5"
    by (simp_all add: valid_grid_def g_def length_rules)
  have c: "0 \<le> count8 g x y" "count8 g x y \<le> 8"
    using count8_range [OF assms(2), of x y] by (simp_all add: g_def)
  have ns: "0 \<le> next_state g x y" "next_state g x y < 5"
    using next_state_range [OF assms(2,3)] by (simp_all add: g_def)
  have 1: "get_cell st (now st) x y = Some (g x y)"
    using assms(3) b by (simp add: get_cell_def inb_def g_def)
  have 2: "neighbours st x y = Some (count8 g x y)"
    using neighbours_eq [OF assms] by (simp add: g_def)
  have 3: "index rules (g x y) = Some (rules ! nat (g x y))"
    using s by (simp add: index_def length_rules)
  have 4: "index (rule (rules ! nat (g x y))) (count8 g x y) = Some (next_state g x y)"
    using c rule_rows [OF s] by (simp add: index_def next_state_def)
  have 5: "index rules (next_state g x y) = Some (rules ! nat (next_state g x y))"
    using ns by (simp add: index_def length_rules)
  have 6: "0 \<le> x \<and> x < WIDTH \<and> 0 \<le> y \<and> y < HEIGHT"
    using assms(3) by (simp add: inb_def)
  show ?thesis
    using 6 b
    by (simp add: cell_def 1 2 3 4 5 set_cell_def drawPixel_def stepped_def
        g_def [symmetric] aliveFlag_def)
qed

lemma stepped_now:
  assumes "roles_ok st" "stepped P st st'"
  shows "roles_ok st'" and "state st' (now st') = state st (now st)"
proof -
  show "roles_ok st'"
    using assms by (auto simp: roles_ok_def stepped_def)
  have "state st' (now st') x y = state st (now st) x y" for x y
    using assms by (auto simp: roles_ok_def stepped_def)
  then show "state st' (now st') = state st (now st)"
    by (intro ext)
qed

lemma stepped_trans:
  assumes "roles_ok st" "stepped P st st1" "stepped Q st1 st2"
  shows "stepped (P \<union> Q) st st2"
proof -
  have g: "state st1 (now st1) = state st (now st)"
    using stepped_now(2) [OF assms(1,2)] .
  show ?thesis
    using assms(2,3) unfolding stepped_def g by auto
qed

lemma int_interval_rec: "a < b \<Longrightarrow> {a..<b} = insert a {a + 1..<b}" for a b :: int
  by auto

lemma for_x_stepped:
  assumes "roles_ok st" "valid_grid (state st (now st))" "0 \<le> y" "y < HEIGHT" "0 \<le> x"
  shows "\<exists>st'. for_x y x (st, lc)
            = Some (st', lc + (\<Sum>x' \<in> {x..<WIDTH}. aliveFlag (next_state (state st (now st)) x' y)))
          \<and> stepped ({x..<WIDTH} \<times> {y}) st st'"
  using assms(1,2,5)
proof (induction "nat (WIDTH - x)" arbitrary: x st lc)
  case 0
  then have "\<not> x < WIDTH" by simp
  then show ?case
    by (subst for_x.simps) (simp add: stepped_def)
next
  case (Suc k)
  define g where "g = state st (now st)"
  from Suc.hyps(2) have x: "x < WIDTH" by simp
  with Suc.prems assms(3,4) have i: "inb x y"
    by (simp add: inb_def)
  from cell_stepped [OF Suc.prems(1,2) i, of lc]
  obtain st1 where c: "cell x y (st, lc) = Some (st1, lc + aliveFlag (next_state g x y))"
    and s1: "stepped {(x, y)} st st1"
    unfolding g_def by blast
  have w1: "roles_ok st1" and g1: "state st1 (now st1) = g"
    using stepped_now [OF Suc.prems(1) s1] by (simp_all add: g_def)
  have k: "k = nat (WIDTH - (x + 1))"
    using Suc.hyps(2) by simp
  have v1: "valid_grid (state st1 (now st1))"
    using Suc.prems(2) g1 by (simp add: g_def)
  from Suc.hyps(1) [OF k w1 v1, of "lc + aliveFlag (next_state g x y)"] Suc.prems(3)
  obtain st' where f: "for_x y (x + 1) (st1, lc + aliveFlag (next_state g x y))
        = Some (st', lc + aliveFlag (next_state g x y)
                 + (\<Sum>x' \<in> {x + 1..<WIDTH}. aliveFlag (next_state g x' y)))"
    and s2: "stepped ({x + 1..<WIDTH} \<times> {y}) st1 st'"
    unfolding g1 by auto
  have u: "{(x, y)} \<union> {x + 1..<WIDTH} \<times> {y} = {x..<WIDTH} \<times> {y}"
    using x by auto
  have "stepped ({x..<WIDTH} \<times> {y}) st st'"
    using stepped_trans [OF Suc.prems(1) s1 s2] unfolding u .
  moreover have "for_x y x (st, lc)
      = Some (st', lc + (\<Sum>x' \<in> {x..<WIDTH}. aliveFlag (next_state g x' y)))"
    using x c f by (subst for_x.simps) (simp add: int_interval_rec [OF x])
  ultimately show ?case
    unfolding g_def by blast
qed

lemma for_y_stepped:
  assumes "roles_ok st" "valid_grid (state st (now st))" "0 \<le> y"
  shows "\<exists>st'. for_y y (st, lc)
            = Some (st', lc + (\<Sum>y' \<in> {y..<HEIGHT}. \<Sum>x' \<in> {0..<WIDTH}.
                                  aliveFlag (next_state (state st (now st)) x' y')))
          \<and> stepped ({0..<WIDTH} \<times> {y..<HEIGHT}) st st'"
  using assms
proof (induction "nat (HEIGHT - y)" arbitrary: y st lc)
  case 0
  then have "\<not> y < HEIGHT" by simp
  then show ?case
    by (subst for_y.simps) (simp add: stepped_def)
next
  case (Suc k)
  define g where "g = state st (now st)"
  define row where "row y' = (\<Sum>x' \<in> {0..<WIDTH}. aliveFlag (next_state g x' y'))" for y'
  from Suc.hyps(2) have y: "y < HEIGHT" by simp
  from for_x_stepped [OF Suc.prems(1,2) Suc.prems(3) y, of 0 lc]
  obtain st1 where c: "for_x y 0 (st, lc) = Some (st1, lc + row y)"
    and s1: "stepped ({0..<WIDTH} \<times> {y}) st st1"
    unfolding g_def row_def by auto
  have w1: "roles_ok st1" and g1: "state st1 (now st1) = g"
    using stepped_now [OF Suc.prems(1) s1] by (simp_all add: g_def)
  have k: "k = nat (HEIGHT - (y + 1))"
    using Suc.hyps(2) by simp
  have v1: "valid_grid (state st1 (now st1))"
    using Suc.prems(2) g1 by (simp add: g_def)
  from Suc.hyps(1) [OF k w1 v1, of "lc + row y"] Suc.prems(3)
  obtain st' where f: "for_y (y + 1) (st1, lc + row y)
        = Some (st', lc + row y + (\<Sum>y' \<in> {y + 1..<HEIGHT}. row y'))"
    and s2: "stepped ({0..<WIDTH} \<times> {y + 1..<HEIGHT}) st1 st'"
    unfolding g1 row_def by auto
  have u: "{0..<WIDTH} \<times> {y} \<union> {0..<WIDTH} \<times> {y + 1..<HEIGHT} = {0..<WIDTH} \<times> {y..<HEIGHT}"
    using y by auto
  have "stepped ({0..<WIDTH} \<times> {y..<HEIGHT}) st st'"
    using stepped_trans [OF Suc.prems(1) s1 s2] unfolding u .
  moreover have "for_y y (st, lc) = Some (st', lc + (\<Sum>y' \<in> {y..<HEIGHT}. row y'))"
    using y c f by (subst for_y.simps) (simp add: int_interval_rec [OF y])
  ultimately show ?case
    unfolding g_def row_def by blast
qed

lemma transition_stepped:
  assumes "roles_ok st" "valid_grid (state st (now st))"
  shows "\<exists>st'. transition st = Some (st', activity (next_state (state st (now st))))
          \<and> stepped grid_box st st'"
  using for_y_stepped [OF assms, of 0 0] by (simp add: transition_def activity_def grid_box_def)

section \<open>Neighbour count\<close>

lemma wrapped_neighbours_if:
  assumes "inb x y"
  shows "wrapped_neighbours x y =
    (let l = (if x = 0 then WIDTH - 1 else x - 1);
         r = (if x = WIDTH - 1 then 0 else x + 1);
         u = (if y = 0 then HEIGHT - 1 else y - 1);
         d = (if y = HEIGHT - 1 then 0 else y + 1)
     in [(l, u), (x, u), (r, u), (l, y), (r, y), (l, d), (x, d), (r, d)])"
proof -
  from assms have x: "0 \<le> x" "x < WIDTH" and y: "0 \<le> y" "y < HEIGHT"
    by (simp_all add: inb_def)
  show ?thesis
    unfolding Let_def wrap_left [OF x] wrap_right [OF x] wrap_up [OF y] wrap_down [OF y]
    using x y by (simp add: wrapped_neighbours_def offsets_def)
qed

lemma wrapped_neighbours_distinct:
  assumes "inb x y"
  shows "distinct (wrapped_neighbours x y) \<and> (x, y) \<notin> set (wrapped_neighbours x y)"
  unfolding wrapped_neighbours_if [OF assms] Let_def
  using assms by (simp add: inb_def WIDTH_def HEIGHT_def)

lemma wrapped_neighbours_corner:
  "wrapped_neighbours 0 0 =
     [(WIDTH - 1, HEIGHT - 1), (0, HEIGHT - 1), (1, HEIGHT - 1),
      (WIDTH - 1, 0), (1, 0),
      (WIDTH - 1, 1), (0, 1), (1, 1)]"
  by (simp add: wrapped_neighbours_def offsets_def WIDTH_def HEIGHT_def)

text \<open>
  C1. For a cell of the current grid, the count \<^verbatim>\<open>n\<close> that the transition engine
  computes is the sum of the alive flags of the eight cells around it on the torus: the
  eight are distinct, the cell itself is not among them, and the count lies between 0
  and 8. Around the corner \<open>(0, 0)\<close> they include \<open>(WIDTH - 1, HEIGHT - 1)\<close>,
  \<open>(WIDTH - 1, 0)\<close> and \<open>(0, HEIGHT - 1)\<close>.
\<close>

theorem neighbour_count_toroidal:
  assumes "roles_ok st" "valid_grid (state st (now st))" "inb x y"
  shows "neighbours st x y
           = Some (\<Sum>(a, b) \<leftarrow> wrapped_neighbours x y. aliveFlag (state st (now st) a b))
       \<and> 0 \<le> (\<Sum>(a, b) \<leftarrow> wrapped_neighbours x y. aliveFlag (state st (now st) a b))
       \<and> (\<Sum>(a, b) \<leftarrow> wrapped_neighbours x y. aliveFlag (state st (now st) a b)) \<le> 8
       \<and> wrapped_neighbours x y =
           [((x - 1) mod WIDTH, (y - 1) mod HEIGHT), (x, (y - 1) mod HEIGHT),
            ((x + 1) mod WIDTH, (y - 1) mod HEIGHT),
            ((x - 1) mod WIDTH, y), ((x + 1) mod WIDTH, y),
            ((x - 1) mod WIDTH, (y + 1) mod HEIGHT), (x, (y + 1) mod HEIGHT),
            ((x + 1) mod WIDTH, (y + 1) mod HEIGHT)]
       \<and> distinct (wrapped_neighbours x y)
       \<and> (x, y) \<notin> set (wrapped_neighbours x y)
       \<and> wrapped_neighbours 0 0 =
           [(WIDTH - 1, HEIGHT - 1), (0, HEIGHT - 1), (1, HEIGHT - 1),
            (WIDTH - 1, 0), (1, 0),
            (WIDTH - 1, 1), (0, 1), (1, 1)]"
proof -
  have 1: "wrapped_neighbours x y =
           [((x - 1) mod WIDTH, (y - 1) mod HEIGHT), (x, (y - 1) mod HEIGHT),
            ((x + 1) mod WIDTH, (y - 1) mod HEIGHT),
            ((x - 1) mod WIDTH, y), ((x + 1) mod WIDTH, y),
            ((x - 1) mod WIDTH, (y + 1) mod HEIGHT), (x, (y + 1) mod HEIGHT),
            ((x + 1) mod WIDTH, (y + 1) mod HEIGHT)]"
    using assms(3) by (simp add: wrapped_neighbours_def offsets_def inb_def)
  show ?thesis
    using neighbours_eq [OF assms] count8_range [OF assms(2), of x y]
      wrapped_neighbours_distinct [OF assms(3)] wrapped_neighbours_corner 1
    unfolding count8_def by simp
qed

theorem neighbour_count_toroidal_witness:
  "roles_ok corner_lit \<and> valid_grid (state corner_lit (now corner_lit)) \<and> inb 0 0
   \<and> neighbours corner_lit 0 0 = Some 1"
proof -
  have w: "roles_ok corner_lit"
    by (simp add: roles_ok_def corner_lit_def init_def)
  have v: "valid_grid (state corner_lit (now corner_lit))"
    by (simp add: valid_grid_def corner_lit_def init_def length_rules)
  have i: "inb 0 0"
    by (simp add: inb_def WIDTH_def HEIGHT_def)
  show ?thesis
    using w v i neighbour_count_toroidal [OF w v i]
    by (simp add: corner_lit_def init_def WIDTH_def HEIGHT_def aliveFlag_simps)
qed

section \<open>One transition, as a function of the current grid\<close>

lemma swap_wf:
  assumes "roles_ok st"
  shows "roles_ok (swap st)" and "now (swap st) = nxt st" and "nxt (swap st) = now st"
    and "state (swap st) = state st" and "pixels (swap st) = pixels st"
    and "rnd (swap st) = rnd st"
  using assms by (auto simp: roles_ok_def swap_def)

lemma in_grid_box: "(x, y) \<in> grid_box \<longleftrightarrow> inb x y"
  by (auto simp: grid_box_def inb_def)

lemma transition_result:
  assumes "roles_ok st" "valid_grid (state st (now st))"
  shows "\<exists>st'. transition st = Some (st', activity (next_state (state st (now st))))
          \<and> roles_ok st' \<and> now st' = now st \<and> nxt st' = nxt st \<and> rnd st' = rnd st
          \<and> state st' (now st') = state st (now st)
          \<and> same_grid (state st' (nxt st')) (next_state (state st (now st)))
          \<and> (\<forall>x y. inb x y \<longrightarrow>
                pixels st' x y = colour (rules ! nat (next_state (state st (now st)) x y)))
          \<and> valid_grid (state st' (nxt st'))"
proof -
  from transition_stepped [OF assms] obtain st'
    where t: "transition st = Some (st', activity (next_state (state st (now st))))"
      and s: "stepped grid_box st st'"
    by blast
  have g: "same_grid (state st' (nxt st')) (next_state (state st (now st)))"
    using s by (simp add: stepped_def same_grid_def in_grid_box)
  have v: "valid_grid (state st' (nxt st'))"
    unfolding valid_grid_def
  proof (intro allI impI)
    fix x y assume i: "inb x y"
    with g have "state st' (nxt st') x y = next_state (state st (now st)) x y"
      by (simp add: same_grid_def)
    with next_state_range [OF assms(2) i]
    show "0 \<le> state st' (nxt st') x y \<and> state st' (nxt st') x y < int (length rules)"
      by (simp add: length_rules)
  qed
  have p: "\<forall>x y. inb x y \<longrightarrow>
      pixels st' x y = colour (rules ! nat (next_state (state st (now st)) x y))"
    using s by (simp add: stepped_def in_grid_box)
  have "now st' = now st \<and> nxt st' = nxt st \<and> rnd st' = rnd st"
    using s by (simp add: stepped_def)
  with t g v p stepped_now [OF assms(1) s] show ?thesis
    by blast
qed

lemma wrapped_neighbours_inb: "(a, b) \<in> set (wrapped_neighbours x y) \<Longrightarrow> inb a b"
  by (auto simp: wrapped_neighbours_def inb_mod)

lemma count8_cong:
  assumes "same_grid g h"
  shows "count8 g x y = count8 h x y"
proof -
  have "(case p of (a, b) \<Rightarrow> aliveFlag (g a b)) = (case p of (a, b) \<Rightarrow> aliveFlag (h a b))"
    if "p \<in> set (wrapped_neighbours x y)" for p
  proof -
    obtain a b where p: "p = (a, b)"
      by (cases p)
    with that have "inb a b"
      using wrapped_neighbours_inb by blast
    with assms show ?thesis
      by (simp add: p same_grid_def)
  qed
  then show ?thesis
    unfolding count8_def by (intro arg_cong [where f = sum_list] map_cong refl)
qed

lemma next_state_cong:
  assumes "same_grid g h" "inb x y"
  shows "next_state g x y = next_state h x y"
  using assms count8_cong [OF assms(1), of x y] by (simp add: next_state_def same_grid_def)

lemma activity_cong:
  assumes "same_grid g h"
  shows "activity g = activity h"
  unfolding activity_def
  using assms by (intro sum.cong refl) (simp add: same_grid_def inb_def)

lemma same_grid_sym: "same_grid g h \<Longrightarrow> same_grid h g"
  by (simp add: same_grid_def)

lemma same_grid_trans: "same_grid g h \<Longrightarrow> same_grid h k \<Longrightarrow> same_grid g k"
  by (simp add: same_grid_def)

lemma same_grid_refl: "same_grid g g"
  by (simp add: same_grid_def)

lemma valid_grid_cong: "same_grid g h \<Longrightarrow> valid_grid g \<Longrightarrow> valid_grid h"
  by (simp add: same_grid_def valid_grid_def)

lemma next_state_same_grid:
  assumes "same_grid g h"
  shows "same_grid (next_state g) (next_state h)"
  using next_state_cong [OF assms] by (simp add: same_grid_def)

section \<open>Determinism\<close>

lemma steps_same_grid:
  assumes "roles_ok a" "roles_ok b" "valid_grid (state a (now a))"
    "same_grid (state a (now a)) (state b (now b))"
  shows "\<exists>an bn. steps n a = Some an \<and> steps n b = Some bn
           \<and> roles_ok an \<and> roles_ok bn \<and> valid_grid (state an (now an))
           \<and> same_grid (state an (now an)) (state bn (now bn))"
  using assms
proof (induction n arbitrary: a b)
  case 0
  then show ?case by simp
next
  case (Suc n)
  define g where "g = state a (now a)"
  define h where "h = state b (now b)"
  have vb: "valid_grid h"
    using valid_grid_cong Suc.prems(3,4) unfolding h_def by blast
  from transition_result [OF Suc.prems(1,3)] obtain a'
    where ta: "transition a = Some (a', activity (next_state g))" and wa: "roles_ok a'"
      and ga: "same_grid (state a' (nxt a')) (next_state g)"
      and va: "valid_grid (state a' (nxt a'))"
    unfolding g_def by blast
  from transition_result [OF Suc.prems(2)] vb obtain b'
    where tb: "transition b = Some (b', activity (next_state h))" and wb: "roles_ok b'"
      and gb: "same_grid (state b' (nxt b')) (next_state h)"
    unfolding h_def by blast
  have "same_grid (next_state g) (next_state h)"
    using next_state_same_grid Suc.prems(4) unfolding g_def h_def by blast
  with ga gb have s: "same_grid (state a' (nxt a')) (state b' (nxt b'))"
    using same_grid_trans same_grid_sym by blast
  from Suc.IH [of "swap a'" "swap b'"] s va
  have "\<exists>an bn. steps n (swap a') = Some an \<and> steps n (swap b') = Some bn
           \<and> roles_ok an \<and> roles_ok bn \<and> valid_grid (state an (now an))
           \<and> same_grid (state an (now an)) (state bn (now bn))"
    by (simp add: swap_wf [OF wa] swap_wf [OF wb])
  with ta tb show ?case
    by simp
qed

text \<open>
  C9. Two runs whose current grids are the same, whatever their buffer roles, their next
  buffers, their panels and their random sources are, make the same transition: the same
  next grid, the same activity count and the same colour for every pixel; and after any
  number of cycles without seeding their current grids are still the same.
\<close>

theorem transition_deterministic:
  assumes "roles_ok a" "roles_ok b" "valid_grid (state a (now a))"
    "same_grid (state a (now a)) (state b (now b))"
  shows "\<exists>a' b' lc. transition a = Some (a', lc) \<and> transition b = Some (b', lc)
           \<and> same_grid (state a' (nxt a')) (state b' (nxt b'))
           \<and> (\<forall>x y. inb x y \<longrightarrow> pixels a' x y = pixels b' x y)
           \<and> (\<forall>n. \<exists>an bn. steps n a = Some an \<and> steps n b = Some bn
                  \<and> same_grid (state an (now an)) (state bn (now bn)))"
proof -
  define g where "g = state a (now a)"
  define h where "h = state b (now b)"
  have vb: "valid_grid h"
    using valid_grid_cong assms(3,4) unfolding h_def by blast
  have gh: "same_grid (next_state g) (next_state h)"
    using next_state_same_grid assms(4) unfolding g_def h_def by blast
  from transition_result [OF assms(1,3)] obtain a'
    where ta: "transition a = Some (a', activity (next_state g))"
      and ga: "same_grid (state a' (nxt a')) (next_state g)"
      and pa: "\<forall>x y. inb x y \<longrightarrow> pixels a' x y = colour (rules ! nat (next_state g x y))"
    unfolding g_def by blast
  from transition_result [OF assms(2)] vb obtain b'
    where tb: "transition b = Some (b', activity (next_state h))"
      and gb: "same_grid (state b' (nxt b')) (next_state h)"
      and pb: "\<forall>x y. inb x y \<longrightarrow> pixels b' x y = colour (rules ! nat (next_state h x y))"
    unfolding h_def by blast
  have 1: "activity (next_state g) = activity (next_state h)"
    using activity_cong [OF gh] .
  have 2: "same_grid (state a' (nxt a')) (state b' (nxt b'))"
    using ga gb gh same_grid_trans same_grid_sym by blast
  have 3: "\<forall>x y. inb x y \<longrightarrow> pixels a' x y = pixels b' x y"
    using pa pb gh by (simp add: same_grid_def)
  have 4: "\<forall>n. \<exists>an bn. steps n a = Some an \<and> steps n b = Some bn
                  \<and> same_grid (state an (now an)) (state bn (now bn))"
    using steps_same_grid [OF assms] by blast
  from ta tb 1 2 3 4 show ?thesis
    by simp
qed

theorem transition_deterministic_witness:
  "roles_ok (init zeros) \<and> roles_ok other_run \<and> valid_grid (state (init zeros) (now (init zeros)))
   \<and> same_grid (state (init zeros) (now (init zeros))) (state other_run (now other_run))
   \<and> state (init zeros) (nxt (init zeros)) 0 0 \<noteq> state other_run (nxt other_run) 0 0
   \<and> (\<exists>a' b' lc. transition (init zeros) = Some (a', lc) \<and> transition other_run = Some (b', lc)
           \<and> same_grid (state a' (nxt a')) (state b' (nxt b'))
           \<and> (\<forall>x y. inb x y \<longrightarrow> pixels a' x y = pixels b' x y))"
proof -
  have 1: "roles_ok (init zeros)" and 2: "roles_ok other_run"
    by (simp_all add: roles_ok_def init_def other_run_def)
  have 3: "valid_grid (state (init zeros) (now (init zeros)))"
    by (simp add: valid_grid_def init_def length_rules)
  have 4: "same_grid (state (init zeros) (now (init zeros))) (state other_run (now other_run))"
    by (simp add: same_grid_def init_def other_run_def)
  have 5: "state (init zeros) (nxt (init zeros)) 0 0 \<noteq> state other_run (nxt other_run) 0 0"
    by (simp add: init_def other_run_def)
  from transition_deterministic [OF 1 2 3 4] 1 2 3 4 5 show ?thesis
    by blast
qed

section \<open>The alive flags follow B36/S23\<close>

lemma aliveFlag_is_alive:
  assumes "0 \<le> s" "s < 5"
  shows "aliveFlag s = (if is_alive s then 1 else 0)"
  using state_cases [OF assms] by (auto simp: aliveFlag_simps is_alive_def)

lemma sum_flags_filter:
  assumes "\<And>p. p \<in> set ps \<Longrightarrow> f p = (if P p then 1 else (0::int))"
  shows "sum_list (map f ps) = int (length (filter P ps))"
  using assms by (induction ps) auto

lemma count8_live_neighbours:
  assumes "valid_grid g"
  shows "count8 g x y = int (live_neighbours (project g) x y)"
  unfolding count8_def live_neighbours_def
proof (rule sum_flags_filter)
  fix p assume p: "p \<in> set (wrapped_neighbours x y)"
  obtain a b where ab: "p = (a, b)"
    by (cases p)
  with p have "inb a b"
    using wrapped_neighbours_inb by blast
  with assms have "0 \<le> g a b" "g a b < 5"
    by (simp_all add: valid_grid_def length_rules)
  then show "(case p of (a, b) \<Rightarrow> aliveFlag (g a b))
      = (if (case p of (a, b) \<Rightarrow> project g a b) then 1 else 0)"
    by (simp add: ab aliveFlag_is_alive project_def)
qed

lemma nth_rules:
  "rules ! nat 0 = \<lparr>colour = BLACK, alive = 0, rule = [0, 0, 0, 1, 0, 0, 1, 0, 0]\<rparr>"
  "rules ! nat 1 = \<lparr>colour = DARK_BLUE, alive = 1, rule = [3, 3, 2, 2, 3, 3, 3, 3, 3]\<rparr>"
  "rules ! nat 2 = \<lparr>colour = GREEN, alive = 1, rule = [3, 3, 2, 2, 3, 3, 3, 3, 3]\<rparr>"
  "rules ! nat 3 = \<lparr>colour = DARK_ORANGE, alive = 0, rule = [4, 4, 4, 1, 4, 4, 1, 4, 4]\<rparr>"
  "rules ! nat 4 = \<lparr>colour = PETROL_BLUE, alive = 0, rule = [4, 4, 0, 1, 0, 0, 1, 0, 0]\<rparr>"
  by (simp_all add: rules_def)

lemma rule_table_highlife_row:
  assumes "0 \<le> n" "n \<le> 8"
  shows "is_alive (rule (rules ! nat 0) ! nat n) \<longleftrightarrow> n = 3 \<or> n = 6"
    and "is_alive (rule (rules ! nat 1) ! nat n) \<longleftrightarrow> n = 2 \<or> n = 3"
    and "is_alive (rule (rules ! nat 2) ! nat n) \<longleftrightarrow> n = 2 \<or> n = 3"
    and "is_alive (rule (rules ! nat 3) ! nat n) \<longleftrightarrow> n = 3 \<or> n = 6"
    and "is_alive (rule (rules ! nat 4) ! nat n) \<longleftrightarrow> n = 3 \<or> n = 6"
  using count_cases [OF assms] unfolding nth_rules is_alive_def
  by (elim insertE emptyE; simp)+

lemma rule_table_highlife:
  assumes "0 \<le> s" "s < 5" "0 \<le> n" "n \<le> 8"
  shows "is_alive (rule (rules ! nat s) ! nat n)
     \<longleftrightarrow> (if is_alive s then n = 2 \<or> n = 3 else n = 3 \<or> n = 6)"
  using state_cases [OF assms(1,2)] rule_table_highlife_row [OF assms(3,4)]
  by (elim insertE emptyE) (simp_all add: is_alive_def)

lemma next_state_highlife:
  assumes "valid_grid g" "inb x y"
  shows "is_alive (next_state g x y) = highlife (project g) x y"
proof -
  from assms have s: "0 \<le> g x y" "g x y < 5"
    by (simp_all add: valid_grid_def length_rules)
  have n: "0 \<le> count8 g x y" "count8 g x y \<le> 8"
    using count8_range [OF assms(1), of x y] by simp_all
  have "is_alive (next_state g x y)
      \<longleftrightarrow> (if is_alive (g x y) then count8 g x y = 2 \<or> count8 g x y = 3
           else count8 g x y = 3 \<or> count8 g x y = 6)"
    unfolding next_state_def using rule_table_highlife [OF s n] .
  moreover have "int m = 2 \<longleftrightarrow> m = 2" "int m = 3 \<longleftrightarrow> m = 3" "int m = 6 \<longleftrightarrow> m = 6" for m
    by arith+
  ultimately show ?thesis
    unfolding count8_live_neighbours [OF assms(1)] highlife_def Let_def project_def
    by simp
qed


text \<open>
  C10. Reading each state as alive (Born, Survived) or dead (Dead, Dying, Trail), one
  transition of the five-state table is one step of the two-state rule B36/S23 on the
  torus: the projection of the next grid is the B36/S23 successor of the projection of
  the current grid.
\<close>

theorem transition_refines_highlife:
  assumes "roles_ok st" "valid_grid (state st (now st))"
  shows "\<exists>st' lc. transition st = Some (st', lc)
     \<and> (\<forall>x y. inb x y \<longrightarrow>
           project (state st' (nxt st')) x y = highlife (project (state st (now st))) x y)
     \<and> (\<forall>x y. inb x y \<longrightarrow>
           project (state (swap st') (now (swap st'))) x y
             = highlife (project (state st (now st))) x y)"
proof -
  from transition_result [OF assms] obtain st'
    where t: "transition st = Some (st', activity (next_state (state st (now st))))"
      and w: "roles_ok st'"
      and g: "same_grid (state st' (nxt st')) (next_state (state st (now st)))"
    by blast
  have "project (state st' (nxt st')) x y = highlife (project (state st (now st))) x y"
    if "inb x y" for x y
    using g that next_state_highlife [OF assms(2) that] by (simp add: same_grid_def project_def)
  with t show ?thesis
    by (simp add: swap_wf [OF w])
qed

theorem transition_refines_highlife_witness:
  "roles_ok corner_lit \<and> valid_grid (state corner_lit (now corner_lit))
   \<and> project (state corner_lit (now corner_lit)) (WIDTH - 1) (HEIGHT - 1)
   \<and> (\<exists>st' lc. transition corner_lit = Some (st', lc)
     \<and> (\<forall>x y. inb x y \<longrightarrow> project (state st' (nxt st')) x y
                = highlife (project (state corner_lit (now corner_lit))) x y))"
proof -
  have w: "roles_ok corner_lit"
    by (simp add: roles_ok_def corner_lit_def init_def)
  have v: "valid_grid (state corner_lit (now corner_lit))"
    by (simp add: valid_grid_def corner_lit_def init_def length_rules)
  have p: "project (state corner_lit (now corner_lit)) (WIDTH - 1) (HEIGHT - 1)"
    by (simp add: project_def is_alive_def corner_lit_def init_def)
  from transition_refines_highlife [OF w v] w v p show ?thesis
    by blast
qed

section \<open>The block is a still life\<close>

lemma block_grid_valid: "valid_grid (block_grid ox oy)"
  by (simp add: valid_grid_def block_grid_def length_rules)

lemma wrap_minus: "0 < m \<Longrightarrow> 0 \<le> x \<Longrightarrow> x < m \<Longrightarrow> (x - 1) mod m = (if x = 0 then m - 1 else x - 1)"
  for m x :: int
  by (simp add: zmod_minus1)

lemma wrap_plus: "0 < m \<Longrightarrow> 0 \<le> x \<Longrightarrow> x < m \<Longrightarrow> (x + 1) mod m = (if x = m - 1 then 0 else x + 1)"
  for m x :: int
  by simp

lemma column_sum:
  fixes m o1 x :: int
  defines "ix \<equiv> (\<lambda>a. if a = o1 \<or> a = (o1 + 1) mod m then 1 else (0::int))"
  assumes "4 \<le> m" "0 \<le> o1" "o1 < m" "0 \<le> x" "x < m"
  shows "(ix x = 1 \<and> ix ((x - 1) mod m) + ix x + ix ((x + 1) mod m) = 2)
       \<or> (ix x = 0 \<and> (ix ((x - 1) mod m) + ix x + ix ((x + 1) mod m) = 0
                     \<or> ix ((x - 1) mod m) + ix x + ix ((x + 1) mod m) = 1))"
proof -
  have m: "0 < m"
    using assms(2) by simp
  show ?thesis
    unfolding ix_def wrap_minus [OF m assms(5,6)] wrap_plus [OF m assms(5,6)]
      wrap_plus [OF m assms(3,4)]
    using assms(2-) by (simp split: if_splits) 
qed


lemma block_fixed:
  assumes "inb ox oy" "inb x y"
  shows "next_state (block_grid ox oy) x y = block_grid ox oy x y"
proof -
  define ix where "ix a = (if a = ox \<or> a = (ox + 1) mod WIDTH then 1 else (0::int))" for a
  define iy where "iy b = (if b = oy \<or> b = (oy + 1) mod HEIGHT then 1 else (0::int))" for b
  define sx where "sx = ix ((x - 1) mod WIDTH) + ix x + ix ((x + 1) mod WIDTH)"
  define sy where "sy = iy ((y - 1) mod HEIGHT) + iy y + iy ((y + 1) mod HEIGHT)"
  from assms have b: "0 \<le> ox" "ox < WIDTH" "0 \<le> oy" "oy < HEIGHT"
    "0 \<le> x" "x < WIDTH" "0 \<le> y" "y < HEIGHT"
    by (simp_all add: inb_def)
  have af: "aliveFlag (block_grid ox oy a b) = ix a * iy b" for a b
    by (simp add: block_grid_def ix_def iy_def aliveFlag_simps)
  have bl: "block_grid ox oy x y = (if ix x = 1 \<and> iy y = 1 then 2 else 0)"
    by (simp add: block_grid_def ix_def iy_def)
  have c: "count8 (block_grid ox oy) x y = sx * sy - ix x * iy y"
    using b(5-) unfolding sx_def sy_def
    by (simp add: count8_def wrapped_neighbours_def offsets_def af algebra_simps)
  have cx: "(ix x = 1 \<and> sx = 2) \<or> (ix x = 0 \<and> (sx = 0 \<or> sx = 1))"
    unfolding sx_def ix_def
    using column_sum [of WIDTH ox x] b by (simp add: WIDTH_def)
  have cy: "(iy y = 1 \<and> sy = 2) \<or> (iy y = 0 \<and> (sy = 0 \<or> sy = 1))"
    unfolding sy_def iy_def
    using column_sum [of HEIGHT oy y] b by (simp add: HEIGHT_def)
  from cx cy show ?thesis
    unfolding next_state_def c bl
    by (elim disjE conjE) (simp_all add: nth_rules [simplified])
qed


lemma pair_sum:
  fixes m o1 :: int
  assumes "2 \<le> m" "0 \<le> o1" "o1 < m"
  shows "(\<Sum>a \<in> {0..<m}. if a = o1 \<or> a = (o1 + 1) mod m then 1 else (0::int)) = 2"
proof -
  define o2 where "o2 = (o1 + 1) mod m"
  have m: "0 < m"
    using assms(1) by simp
  have o2: "0 \<le> o2" "o2 < m" "o2 \<noteq> o1"
    unfolding o2_def wrap_plus [OF m assms(2,3)] using assms by auto
  have "(\<Sum>a \<in> {0..<m}. if a = o1 \<or> a = o2 then 1 else (0::int))
      = (\<Sum>a \<in> {0..<m}. (if a = o1 then 1 else 0) + (if a = o2 then 1 else 0))"
    using o2(3) by (intro sum.cong refl) simp
  also have "\<dots> = 2"
    using assms(2,3) o2(1,2) by (simp add: sum.distrib)
  finally show ?thesis
    unfolding o2_def .
qed

lemma block_activity:
  assumes "inb ox oy"
  shows "activity (block_grid ox oy) = 4"
proof -
  define ix where "ix a = (if a = ox \<or> a = (ox + 1) mod WIDTH then 1 else (0::int))" for a
  define iy where "iy b = (if b = oy \<or> b = (oy + 1) mod HEIGHT then 1 else (0::int))" for b
  have af: "aliveFlag (block_grid ox oy a b) = ix a * iy b" for a b
    by (simp add: block_grid_def ix_def iy_def aliveFlag_simps)
  have sx: "sum ix {0..<WIDTH} = 2"
    unfolding ix_def using assms by (intro pair_sum) (simp_all add: inb_def WIDTH_def)
  have sy: "sum iy {0..<HEIGHT} = 2"
    unfolding iy_def using assms by (intro pair_sum) (simp_all add: inb_def HEIGHT_def)
  have "activity (block_grid ox oy) = (\<Sum>y \<in> {0..<HEIGHT}. sum ix {0..<WIDTH} * iy y)"
    by (simp add: activity_def af sum_distrib_right)
  also have "\<dots> = 4"
    by (simp add: sx sy sum_distrib_left [symmetric])
  finally show ?thesis .
qed

lemma block_step:
  assumes "roles_ok st" "inb ox oy" "same_grid (state st (now st)) (block_grid ox oy)"
  shows "\<exists>st'. transition st = Some (st', 4) \<and> roles_ok st'
           \<and> same_grid (state st' (nxt st')) (block_grid ox oy)"
proof -
  define g where "g = state st (now st)"
  have v: "valid_grid g"
    using valid_grid_cong [OF same_grid_sym block_grid_valid] assms(3) unfolding g_def by blast
  have n: "same_grid (next_state g) (block_grid ox oy)"
    unfolding same_grid_def
    using next_state_cong [OF assms(3)] block_fixed [OF assms(2)] by (simp add: g_def)
  from transition_result [OF assms(1)] v obtain st'
    where t: "transition st = Some (st', activity (next_state g))" and w: "roles_ok st'"
      and s: "same_grid (state st' (nxt st')) (next_state g)"
    unfolding g_def by blast
  have "activity (next_state g) = 4"
    using activity_cong [OF n] block_activity [OF assms(2)] by simp
  with t w same_grid_trans [OF s n] show ?thesis
    by simp
qed

lemma block_steps:
  assumes "roles_ok st" "inb ox oy" "same_grid (state st (now st)) (block_grid ox oy)"
  shows "\<exists>sn. steps n st = Some sn \<and> roles_ok sn
           \<and> same_grid (state sn (now sn)) (block_grid ox oy)"
  using assms(1,3)
proof (induction n arbitrary: st)
  case 0
  then show ?case by simp
next
  case (Suc n)
  from block_step [OF Suc.prems(1) assms(2) Suc.prems(2)] obtain st'
    where t: "transition st = Some (st', 4)" and w: "roles_ok st'"
      and s: "same_grid (state st' (nxt st')) (block_grid ox oy)"
    by blast
  from Suc.IH [of "swap st'"] s show ?case
    by (simp add: t swap_wf [OF w])
qed

text \<open>
  C4. On a grid that is a 2 x 2 block of Survived cells among Dead cells, one transition
  writes the same grid into the next buffer and counts 4 active cells; so after every
  number of cycles in which the seeder is not called the current grid is still that grid,
  its activity is 4, and the next transition counts 4 again.
\<close>

theorem block_still_life:
  assumes "roles_ok st" "inb ox oy" "same_grid (state st (now st)) (block_grid ox oy)"
  shows "\<exists>st'. transition st = Some (st', 4)
           \<and> same_grid (state st' (nxt st')) (block_grid ox oy)
           \<and> (\<forall>n. \<exists>sn sn'. steps n st = Some sn
                  \<and> same_grid (state sn (now sn)) (block_grid ox oy)
                  \<and> activity (state sn (now sn)) = 4
                  \<and> transition sn = Some (sn', 4))"
proof -
  have "\<exists>sn sn'. steps n st = Some sn
          \<and> same_grid (state sn (now sn)) (block_grid ox oy)
          \<and> activity (state sn (now sn)) = 4
          \<and> transition sn = Some (sn', 4)" for n
  proof -
    from block_steps [OF assms] obtain sn
      where 1: "steps n st = Some sn" and 2: "roles_ok sn"
        and 3: "same_grid (state sn (now sn)) (block_grid ox oy)"
      by blast
    from block_step [OF 2 assms(2) 3] obtain sn' where 4: "transition sn = Some (sn', 4)"
      by blast
    have "activity (state sn (now sn)) = 4"
      using activity_cong [OF 3] block_activity [OF assms(2)] by simp
    with 1 3 4 show ?thesis
      by blast
  qed
  with block_step [OF assms] show ?thesis
    by blast
qed

theorem block_still_life_witness:
  "roles_ok block_run \<and> inb 20 30 \<and> same_grid (state block_run (now block_run)) (block_grid 20 30)
   \<and> state block_run (now block_run) 21 31 = 2
   \<and> (\<exists>st'. transition block_run = Some (st', 4)
         \<and> same_grid (state st' (nxt st')) (block_grid 20 30))"
proof -
  have 1: "roles_ok block_run"
    by (simp add: roles_ok_def block_run_def init_def)
  have 2: "inb 20 30"
    by (simp add: inb_def WIDTH_def HEIGHT_def)
  have 3: "same_grid (state block_run (now block_run)) (block_grid 20 30)"
    by (simp add: same_grid_def block_run_def)
  have 4: "state block_run (now block_run) 21 31 = 2"
    by (simp add: block_run_def block_grid_def WIDTH_def HEIGHT_def)
  from block_still_life [OF 1 2 3] 1 2 3 4 show ?thesis
    by blast
qed

section \<open>The overlay of one shape\<close>

lemma seeded_refl: "seeded {} st st"
  by (simp add: seeded_def)

lemma seeded_trans:
  assumes "seeded S st st1" "seeded T st1 st2"
  shows "seeded (S \<union> T) st st2"
  using assms unfolding seeded_def by auto

lemma set_cell_seeded:
  assumes "roles_ok st" "inb x y"
  shows "\<exists>st'. set_cell st (now st) x y 2 = Some st' \<and> seeded {(x, y)} st st'
           \<and> rnd st' = rnd st"
  using assms by (auto simp: set_cell_def roles_ok_def inb_def seeded_def)

lemma seeded_wf: "seeded S st st' \<Longrightarrow> roles_ok st \<Longrightarrow> roles_ok st'"
  by (simp add: seeded_def roles_ok_def)

lemma stamp_x_seeded:
  assumes "roles_ok st" "0 \<le> x" "x \<le> width sh" "0 \<le> y" "y < height sh" "well_formed sh"
    "\<And>x'. isAlive sh x' y \<Longrightarrow> inb (px + x') (py + y)"
  shows "\<exists>st'. stamp_x sh px py y x (y * width sh + x, st)
              = Some (y * width sh + width sh, st')
           \<and> rnd st' = rnd st
           \<and> seeded {(px + x', py + y) | x'. x \<le> x' \<and> isAlive sh x' y} st st'"
  using assms(1,2,3)
proof (induction "nat (width sh - x)" arbitrary: x st)
  case 0
  then have x: "x = width sh" by simp
  have e: "{(px + x', py + y) | x'. x \<le> x' \<and> isAlive sh x' y} = {}"
    by (auto simp: isAlive_def x)
  show ?case
    unfolding e by (subst stamp_x.simps) (simp add: x seeded_refl)
next
  case (Suc k)
  define w where "w = width sh"
  from Suc.hyps(2) have x: "x < w" by (simp add: w_def)
  have "(y + 1) * w \<le> height sh * w"
    using assms(4,5,6) by (intro mult_right_mono) (simp_all add: well_formed_def w_def)
  with assms(6) have len: "y * w + w \<le> int (length (shape sh))"
    by (simp add: well_formed_def w_def algebra_simps)
  have "0 \<le> y * w"
    using assms(4,6) by (simp add: well_formed_def w_def)
  with len x Suc.prems(2)
  have i: "index (shape sh) (y * w + x) = Some (shape sh ! nat (y * w + x))"
    by (simp add: index_def)
  define S where "S = (if shape sh ! nat (y * w + x) = CHR ''1'' then {(px + x, py + y)} else {})"
  have m: "isAlive sh x y \<longleftrightarrow> shape sh ! nat (y * w + x) = CHR ''1''"
    using x Suc.prems(2) assms(4,5) by (simp add: isAlive_def w_def)
  have "\<exists>st1. (if shape sh ! nat (y * w + x) = CHR ''1''
               then set_cell st (now st) (px + x) (py + y) 2 else Some st) = Some st1
             \<and> rnd st1 = rnd st \<and> seeded S st st1"
  proof (cases "shape sh ! nat (y * w + x) = CHR ''1''")
    case True
    with m have "inb (px + x) (py + y)"
      using assms(7) by blast
    from set_cell_seeded [OF Suc.prems(1) this] True show ?thesis
      by (auto simp: S_def)
  next
    case False
    then show ?thesis
      by (simp add: S_def seeded_refl)
  qed
  then obtain st1 where
    c: "(if shape sh ! nat (y * w + x) = CHR ''1''
         then set_cell st (now st) (px + x) (py + y) 2 else Some st) = Some st1"
    and r1: "rnd st1 = rnd st" and s1: "seeded S st st1"
    by blast
  have k: "k = nat (width sh - (x + 1))"
    using Suc.hyps(2) by simp
  from Suc.hyps(1) [OF k seeded_wf [OF s1 Suc.prems(1)]] Suc.prems(2) x
  obtain st' where
    f: "stamp_x sh px py y (x + 1) (y * w + (x + 1), st1) = Some (y * w + w, st')"
    and r2: "rnd st' = rnd st1"
    and s2: "seeded {(px + x', py + y) | x'. x + 1 \<le> x' \<and> isAlive sh x' y} st1 st'"
    unfolding w_def by auto
  have u: "S \<union> {(px + x', py + y) | x'. x + 1 \<le> x' \<and> isAlive sh x' y}
         = {(px + x', py + y) | x'. x \<le> x' \<and> isAlive sh x' y}"
  proof -
    have "x \<le> x' \<longleftrightarrow> x' = x \<or> x + 1 \<le> x'" for x'
      by arith
    then show ?thesis
      unfolding S_def m [symmetric] by auto
  qed
  have "stamp_x sh px py y x (y * w + x, st) = Some (y * w + w, st')"
    using x i c f
    by (subst stamp_x.simps) (auto simp: w_def [symmetric] add.assoc split: if_splits)
  with r1 r2 seeded_trans [OF s1 s2] show ?case
    unfolding u w_def by auto
qed


lemma stamp_y_seeded:
  assumes "roles_ok st" "0 \<le> y" "y \<le> height sh" "well_formed sh"
    "\<And>x' y'. isAlive sh x' y' \<Longrightarrow> inb (px + x') (py + y')"
  shows "\<exists>st'. stamp_y sh px py y (y * width sh, st)
              = Some (height sh * width sh, st')
           \<and> rnd st' = rnd st
           \<and> seeded {(px + x', py + y') | x' y'. y \<le> y' \<and> isAlive sh x' y'} st st'"
  using assms(1,2,3)
proof (induction "nat (height sh - y)" arbitrary: y st)
  case 0
  then have y: "y = height sh" by simp
  have e: "{(px + x', py + y') | x' y'. y \<le> y' \<and> isAlive sh x' y'} = {}"
    by (auto simp: isAlive_def y)
  show ?case
    unfolding e by (subst stamp_y.simps) (simp add: y seeded_refl)
next
  case (Suc k)
  define w where "w = width sh"
  from Suc.hyps(2) have y: "y < height sh" by simp
  have w0: "0 \<le> width sh"
    using assms(4) by (simp add: well_formed_def)
  from stamp_x_seeded [OF Suc.prems(1) order_refl w0 Suc.prems(2) y assms(4), of px py] assms(5)
  obtain st1 where c: "stamp_x sh px py y 0 (y * w, st) = Some (y * w + w, st1)"
    and r1: "rnd st1 = rnd st"
    and s1: "seeded {(px + x', py + y) | x'. 0 \<le> x' \<and> isAlive sh x' y} st st1"
    unfolding w_def by auto
  have k: "k = nat (height sh - (y + 1))"
    using Suc.hyps(2) by simp
  from Suc.hyps(1) [OF k seeded_wf [OF s1 Suc.prems(1)]] Suc.prems(2) y
  obtain st' where f: "stamp_y sh px py (y + 1) ((y + 1) * w, st1) = Some (height sh * w, st')"
    and r2: "rnd st' = rnd st1"
    and s2: "seeded {(px + x', py + y') | x' y'. y + 1 \<le> y' \<and> isAlive sh x' y'} st1 st'"
    unfolding w_def by auto
  have u: "{(px + x', py + y) | x'. 0 \<le> x' \<and> isAlive sh x' y}
         \<union> {(px + x', py + y') | x' y'. y + 1 \<le> y' \<and> isAlive sh x' y'}
         = {(px + x', py + y') | x' y'. y \<le> y' \<and> isAlive sh x' y'}"
  proof -
    have "y \<le> y' \<longleftrightarrow> y' = y \<or> y + 1 \<le> y'" for y'
      by arith
    moreover have "isAlive sh x' y' \<Longrightarrow> 0 \<le> x'" for x' y'
      by (simp add: isAlive_def)
    ultimately show ?thesis
      by auto
  qed
  have e: "(y + 1) * w = y * w + w"
    by (simp add: algebra_simps)
  have "stamp_y sh px py y (y * w, st) = Some (height sh * w, st')"
    using y c f by (subst stamp_y.simps) (simp add: e)
  with r1 r2 seeded_trans [OF s1 s2] show ?case
    unfolding u w_def by auto
qed

lemma stamp_seeded:
  assumes "roles_ok st" "well_formed sh"
    "\<And>x y. isAlive sh x y \<Longrightarrow> inb (px + x) (py + y)"
  shows "\<exists>st'. map_option snd (stamp_y sh px py 0 (0, st)) = Some st'
           \<and> rnd st' = rnd st \<and> seeded (footprint (px, py, sh)) st st'"
proof -
  have h: "0 \<le> height sh"
    using assms(2) by (simp add: well_formed_def)
  have "{(px + x', py + y') | x' y'. 0 \<le> y' \<and> isAlive sh x' y'} = footprint (px, py, sh)"
    by (auto simp: footprint_def isAlive_def)
  with stamp_y_seeded [OF assms(1) order_refl h assms(2), of px py] assms(3)
  show ?thesis
    by auto
qed

section \<open>The shape library and the draws\<close>

lemmas shape_defs =
  GLIDER_def GLIDER2_def GLIDER3_def GLIDER4_def LWSS_def MWSS_def HWSS_def
  RPENT_def DIEHARD_def ACORN_def

lemma seeds_extent:
  assumes "sh \<in> set seeds"
  shows "well_formed sh \<and> 0 < width sh \<and> width sh \<le> 8 \<and> 0 < height sh \<and> height sh \<le> 5
       \<and> int (length (shape sh)) = width sh * height sh"
  using assms by (auto simp: seeds_def shape_defs well_formed_def)

lemma draw_range:
  assumes "draw r = ((px, py, sh), r')"
  shows "10 \<le> px \<and> px < WIDTH - 10 \<and> 10 \<le> py \<and> py < HEIGHT - 10 \<and> sh \<in> set seeds"
proof -
  have "nat (int k mod 13) < length seeds" for k
    by (simp add: seeds_def nat_less_iff)
  then have "seeds ! nat (int k mod 13) \<in> set seeds" for k
    using nth_mem by blast
  with assms show ?thesis
    by (auto simp: draw_def random_range_def random_below_def seedsC_def WIDTH_def HEIGHT_def
        seeds_def [THEN arg_cong, of length] split: prod.splits)
qed


lemma seed_one_draw:
  assumes "draw (rnd st) = ((px, py, sh), r')"
  shows "seed_one seeds 10 st = map_option snd (stamp_y sh px py 0 (0, st\<lparr>rnd := r'\<rparr>))"
proof -
  have "0 \<le> int k mod 13 \<and> int k mod 13 < int (length seeds)" for k
    by (simp add: seeds_def)
  then have "index seeds (int k mod 13) = Some (seeds ! nat (int k mod 13))" for k
    unfolding index_def by simp
  moreover have "int (length seeds) = 13"
    by (simp add: seeds_def)
  ultimately show ?thesis
    using assms
    by (simp add: seed_one_def draw_def seedsC_def random_below_def random_range_def
        WIDTH_def HEIGHT_def)
qed

lemma seed_one_seeded:
  assumes "roles_ok st"
  shows "\<exists>st'. seed_one seeds 10 st = Some st' \<and> roles_ok st' \<and> rnd st' = snd (draw (rnd st))
           \<and> seeded (footprint (fst (draw (rnd st)))) st st'"
proof -
  obtain px py sh r' where d: "draw (rnd st) = ((px, py, sh), r')"
    by (metis prod.exhaust)
  from draw_range [OF d] have p: "10 \<le> px" "px < WIDTH - 10" "10 \<le> py" "py < HEIGHT - 10"
    and sh: "sh \<in> set seeds"
    by simp_all
  from seeds_extent [OF sh] have wf_sh: "well_formed sh" and e: "width sh \<le> 8" "height sh \<le> 5"
    by simp_all
  have i: "inb (px + x) (py + y)" if "isAlive sh x y" for x y
    using that p e by (simp add: isAlive_def inb_def)
  have w: "roles_ok (st\<lparr>rnd := r'\<rparr>)"
    using assms by (simp add: roles_ok_def)
  from stamp_seeded [OF w wf_sh i] obtain st'
    where 1: "map_option snd (stamp_y sh px py 0 (0, st\<lparr>rnd := r'\<rparr>)) = Some st'"
      and 2: "rnd st' = r'" and 3: "seeded (footprint (px, py, sh)) (st\<lparr>rnd := r'\<rparr>) st'"
    by auto
  from 3 have 4: "seeded (footprint (px, py, sh)) st st'"
    by (simp add: seeded_def)
  from 1 2 4 seeded_wf [OF 4 assms] show ?thesis
    by (auto simp: seed_one_draw [OF d] d)
qed

lemma placements_range:
  assumes "(px, py, sh) \<in> set (placements n r)"
  shows "10 \<le> px \<and> px < WIDTH - 10 \<and> 10 \<le> py \<and> py < HEIGHT - 10 \<and> sh \<in> set seeds"
  using assms
proof (induction n arbitrary: r)
  case 0
  then show ?case by simp
next
  case (Suc n)
  from Suc.prems consider "fst (draw r) = (px, py, sh)"
    | "(px, py, sh) \<in> set (placements n (snd (draw r)))"
    by auto
  then show ?case
  proof cases
    case 1
    then have "draw r = ((px, py, sh), snd (draw r))"
      by (metis prod.collapse)
    from draw_range [OF this] show ?thesis .
  next
    case 2
    from Suc.IH [OF this] show ?thesis .
  qed
qed

lemma seed_loop_seeded:
  assumes "roles_ok st"
  shows "\<exists>st'. seed_loop seeds 10 n i st = Some st' \<and> roles_ok st'
           \<and> seeded (\<Union> (footprint ` set (placements (nat (n - i)) (rnd st)))) st st'"
  using assms
proof (induction "nat (n - i)" arbitrary: i st)
  case 0
  then have "\<not> i < n" by simp
  with 0 show ?case
    by (subst seed_loop.simps) (simp add: seeded_refl)
next
  case (Suc k)
  from Suc.hyps(2) have i: "i < n" by simp
  from seed_one_seeded [OF Suc.prems] obtain st1
    where 1: "seed_one seeds 10 st = Some st1" and w1: "roles_ok st1"
      and r1: "rnd st1 = snd (draw (rnd st))"
      and s1: "seeded (footprint (fst (draw (rnd st)))) st st1"
    by blast
  have k: "k = nat (n - (i + 1))"
    using Suc.hyps(2) by simp
  from Suc.hyps(1) [OF k w1] obtain st'
    where 2: "seed_loop seeds 10 n (i + 1) st1 = Some st'" and w2: "roles_ok st'"
      and s2: "seeded (\<Union> (footprint ` set (placements k (rnd st1)))) st1 st'"
    unfolding k by blast
  have "seed_loop seeds 10 n i st = Some st'"
    using i 1 2 by (subst seed_loop.simps) simp
  moreover have "nat (n - i) = Suc k"
    using Suc.hyps(2) by simp
  ultimately show ?case
    using w2 seeded_trans [OF s1 s2] by (simp add: r1)
qed

lemma seed_seeded:
  assumes "roles_ok st"
  shows "\<exists>st'. seed n st = Some st' \<and> roles_ok st'
           \<and> seeded (\<Union> (footprint ` set (placements (nat n) (rnd st)))) st st'"
  using seed_loop_seeded [OF assms, of n 0] by (simp add: seed_def)

section \<open>The seeder stays inside the grid\<close>

lemma placement_in_bounds:
  assumes "(px, py, sh) \<in> set (placements n r)" "isAlive sh x y"
  shows "0 \<le> px + x \<and> px + x < WIDTH \<and> 0 \<le> py + y \<and> py + y < HEIGHT"
proof -
  from placements_range [OF assms(1)]
  have p: "10 \<le> px" "px < WIDTH - 10" "10 \<le> py" "py < HEIGHT - 10" and sh: "sh \<in> set seeds"
    by simp_all
  from seeds_extent [OF sh] have "width sh \<le> 8" "height sh \<le> 5"
    by simp_all
  with p assms(2) show ?thesis
    by (simp add: isAlive_def)
qed

lemma init_simps:
  "rnd (init r) = r" "now (init r) = 0" "nxt (init r) = 1"
  "state (init r) b x y = 0" "pixels (init r) x y = BLACK"
  by (simp_all add: init_def)

lemma draw_nines: "draw nines = ((19, 19, DIEHARD), nines)"
proof -
  have e: "(\<lambda>k. 9) = nines"
    by (rule ext) (simp add: nines_def)
  show ?thesis
    by (simp add: draw_def random_range_def random_below_def seedsC_def seeds_def nines_def e
        WIDTH_def HEIGHT_def)
qed

lemma placements_nines: "placements (nat 1) (rnd (init nines)) = [(19, 19, DIEHARD)]"
  by (simp add: init_simps draw_nines)

lemma roles_ok_init: "roles_ok (init r)"
  by (simp add: roles_ok_def init_def)

text \<open>
  C5. With the sketch's grid of 128 x 64, its inset of 10 and its shape library, whose
  shapes are at most 8 wide and 5 high, every call of \<^verbatim>\<open>seed\<close> runs to its end without
  an access outside an array: every origin drawn lies in
  \<open>[10, WIDTH - 10) \<times> [10, HEIGHT - 10)\<close> and every cell written lies in the grid.
\<close>

theorem seed_writes_in_bounds:
  assumes "roles_ok st"
  shows "(\<exists>st'. seed n st = Some st')
       \<and> WIDTH = 128 \<and> HEIGHT = 64
       \<and> (\<forall>sh \<in> set seeds. width sh \<le> 8 \<and> height sh \<le> 5)
       \<and> (\<forall>(px, py, sh) \<in> set (placements (nat n) (rnd st)).
             10 \<le> px \<and> px < WIDTH - 10 \<and> 10 \<le> py \<and> py < HEIGHT - 10
           \<and> (\<forall>x y. isAlive sh x y \<longrightarrow>
                 0 \<le> px + x \<and> px + x < WIDTH \<and> 0 \<le> py + y \<and> py + y < HEIGHT))"
proof -
  have 1: "\<exists>st'. seed n st = Some st'"
    using seed_seeded [OF assms, of n] by blast
  have 2: "\<forall>sh \<in> set seeds. width sh \<le> 8 \<and> height sh \<le> 5"
    using seeds_extent by blast
  have 3: "\<forall>(px, py, sh) \<in> set (placements (nat n) (rnd st)).
             10 \<le> px \<and> px < WIDTH - 10 \<and> 10 \<le> py \<and> py < HEIGHT - 10
           \<and> (\<forall>x y. isAlive sh x y \<longrightarrow>
                 0 \<le> px + x \<and> px + x < WIDTH \<and> 0 \<le> py + y \<and> py + y < HEIGHT)"
    using placements_range placement_in_bounds by blast
  from 1 2 3 show ?thesis
    by (simp add: WIDTH_def HEIGHT_def)
qed

theorem seed_writes_in_bounds_witness:
  "roles_ok (init nines) \<and> seed 1 (init nines) \<noteq> None
   \<and> placements (nat 1) (rnd (init nines)) = [(19, 19, DIEHARD)]
   \<and> isAlive DIEHARD 7 2 \<and> (19::int) + 7 < WIDTH \<and> (19::int) + 2 < HEIGHT"
proof -
  have m: "isAlive DIEHARD 7 2"
    by (simp add: isAlive_def DIEHARD_def)
  from seed_writes_in_bounds [where st = "init nines" and n = 1, OF roles_ok_init] m show ?thesis
    by (auto simp: draw_nines init_simps roles_ok_init)
qed

section \<open>What the seeder changes\<close>

text \<open>
  C6. A call of \<^verbatim>\<open>seed\<close> sets to 2 (Survived) the cells of the current buffer that lie
  under a mask entry 1 of one of the shapes it draws, at the origin it draws for it, and
  changes no other cell of the current buffer, no cell of the next buffer, neither buffer
  role and no pixel.
\<close>

theorem seed_frame:
  assumes "roles_ok st"
  shows "\<exists>st'. seed n st = Some st'
     \<and> now st' = now st \<and> nxt st' = nxt st \<and> pixels st' = pixels st
     \<and> (\<forall>x y. state st' (now st) x y =
           (if \<exists>px py sh a b. (px, py, sh) \<in> set (placements (nat n) (rnd st))
                 \<and> isAlive sh a b \<and> x = px + a \<and> y = py + b
            then 2 else state st (now st) x y))
     \<and> state st' (nxt st) = state st (nxt st)"
proof -
  define S where "S = \<Union> (footprint ` set (placements (nat n) (rnd st)))"
  from seed_seeded [OF assms, of n] obtain st'
    where 1: "seed n st = Some st'" and 2: "seeded S st st'"
    unfolding S_def by blast
  have 3: "(x, y) \<in> S \<longleftrightarrow> (\<exists>px py sh a b. (px, py, sh) \<in> set (placements (nat n) (rnd st))
                 \<and> isAlive sh a b \<and> x = px + a \<and> y = py + b)" for x y
    unfolding S_def footprint_def by fastforce
  have 4: "state st' (now st) x y = (if (x, y) \<in> S then 2 else state st (now st) x y)" for x y
    using 2 by (simp add: seeded_def)
  have "nxt st \<noteq> now st"
    using assms by (auto simp: roles_ok_def)
  with 2 have "state st' (nxt st) x y = state st (nxt st) x y" for x y
    by (simp add: seeded_def)
  then have 5: "state st' (nxt st) = state st (nxt st)"
    by (intro ext)
  from 1 2 4 5 show ?thesis
    unfolding 3 by (simp add: seeded_def)
qed

theorem seed_frame_witness:
  "roles_ok (init nines)
   \<and> (\<exists>st'. seed 1 (init nines) = Some st' \<and> now st' = 0 \<and> nxt st' = 1
         \<and> state st' 0 26 19 = 2 \<and> state st' 0 25 19 = 0 \<and> state st' 1 26 19 = 0)"
proof -
  have m: "isAlive DIEHARD 7 0" "\<not> isAlive DIEHARD 6 0"
    by (simp_all add: isAlive_def DIEHARD_def)
  from seed_frame [where st = "init nines" and n = 1, OF roles_ok_init] obtain st'
    where s: "seed 1 (init nines) = Some st'"
      and r: "now st' = now (init nines)" "nxt st' = nxt (init nines)"
      and c: "\<forall>x y. state st' (now (init nines)) x y =
           (if \<exists>px py sh a b. (px, py, sh) \<in> set (placements (nat 1) (rnd (init nines)))
                 \<and> isAlive sh a b \<and> x = px + a \<and> y = py + b
            then 2 else state (init nines) (now (init nines)) x y)"
      and n: "state st' (nxt (init nines)) = state (init nines) (nxt (init nines))"
    by blast
  note c' = c [unfolded placements_nines, rule_format]
  have a: "\<exists>px py sh a b. (px, py, sh) \<in> set [(19, 19, DIEHARD)]
                 \<and> isAlive sh a b \<and> (26::int) = px + a \<and> (19::int) = py + b"
    using m(1) by (intro exI [of _ 19] exI [of _ DIEHARD] exI [of _ 7] exI [of _ 0]) simp
  have b: "\<not> (\<exists>px py sh a b. (px, py, sh) \<in> set [(19, 19, DIEHARD)]
                 \<and> isAlive sh a b \<and> (25::int) = px + a \<and> (19::int) = py + b)"
  proof
    assume "\<exists>px py sh a b. (px, py, sh) \<in> set [(19, 19, DIEHARD)]
                 \<and> isAlive sh a b \<and> (25::int) = px + a \<and> (19::int) = py + b"
    then obtain a b where "isAlive DIEHARD a b" "(25::int) = 19 + a" "(19::int) = 19 + b"
      by auto
    then have "isAlive DIEHARD 6 0"
      by simp
    with m(2) show False
      by simp
  qed
  have 1: "state st' 0 26 19 = 2"
    using c' [of 26 19] a by (simp only: if_P init_simps)
  have 2: "state st' 0 25 19 = 0"
    using c' [of 25 19] b by (simp only: if_not_P if_False init_simps)
  have 3: "state st' 1 26 19 = 0"
    using n by (simp add: init_simps fun_eq_iff)
  from s r 1 2 3 show ?thesis
    by (simp add: roles_ok_init init_simps)
qed

section \<open>Activity as a number of cells\<close>

lemma activity_card:
  assumes "valid_grid g"
  shows "activity g = int (card {(x, y). inb x y \<and> aliveFlag (g x y) = 1})"
proof -
  have f: "finite grid_box"
    by (simp add: grid_box_def)
  have v: "aliveFlag (g (fst p) (snd p)) = (if aliveFlag (g (fst p) (snd p)) = 1 then 1 else 0)"
    if "p \<in> grid_box" for p
  proof -
    from that have "inb (fst p) (snd p)"
      by (simp add: in_grid_box [symmetric])
    with assms aliveFlag_range [of "g (fst p) (snd p)"] show ?thesis
      by (simp add: valid_grid_def length_rules)
  qed
  have s: "{(x, y). inb x y \<and> aliveFlag (g x y) = 1}
         = {p \<in> grid_box. aliveFlag (g (fst p) (snd p)) = 1}"
    by (auto simp: in_grid_box)
  have "activity g = (\<Sum>x \<in> {0..<WIDTH}. \<Sum>y \<in> {0..<HEIGHT}. aliveFlag (g x y))"
    unfolding activity_def by (rule sum.swap)
  also have "\<dots> = (\<Sum>p \<in> grid_box. aliveFlag (g (fst p) (snd p)))"
    by (simp add: sum.cartesian_product grid_box_def case_prod_unfold)
  also have "\<dots> = (\<Sum>p \<in> grid_box. if aliveFlag (g (fst p) (snd p)) = 1 then 1 else 0)"
    using v by (intro sum.cong refl)
  also have "\<dots> = int (card {p \<in> grid_box. aliveFlag (g (fst p) (snd p)) = 1})"
    using f by (simp add: sum.inter_filter [symmetric])
  finally show ?thesis
    unfolding s .
qed

lemma seeded_dead_grid:
  assumes "\<forall>x y. inb x y \<longrightarrow> state st (now st) x y = 0" "seeded S st st'" "S \<subseteq> grid_box"
  shows "{(x, y). inb x y \<and> state st' (now st') x y = 2} = S"
    and "activity (state st' (now st')) = int (card S)"
proof -
  have g: "state st' (now st') x y = (if (x, y) \<in> S then 2 else 0)" if "inb x y" for x y
    using assms(1,2) that by (simp add: seeded_def)
  show 1: "{(x, y). inb x y \<and> state st' (now st') x y = 2} = S"
    using g assms(3) by (auto simp: in_grid_box [symmetric] split: if_splits)
  have v: "valid_grid (state st' (now st'))"
    unfolding valid_grid_def using g by (simp add: length_rules)
  have "{(x, y). inb x y \<and> aliveFlag (state st' (now st') x y) = 1}
      = {(x, y). inb x y \<and> state st' (now st') x y = 2}"
    using g by (auto simp: aliveFlag_simps split: if_splits)
  with activity_card [OF v] 1 show "activity (state st' (now st')) = int (card S)"
    by simp
qed

lemma dead_grid_activity:
  assumes "\<forall>x y. inb x y \<longrightarrow> g x y = 0"
  shows "activity g = 0"
  unfolding activity_def using assms by (simp add: inb_def aliveFlag_simps)

section \<open>Seeding Diehard\<close>

lemma diehard_mask:
  "isAlive DIEHARD x y \<longleftrightarrow> (x, y) \<in> {(7, 0), (0, 1), (1, 1), (1, 2), (5, 2), (6, 2), (7, 2)}"
proof
  assume a: "isAlive DIEHARD x y"
  then have "0 \<le> x \<and> x < width DIEHARD \<and> 0 \<le> y \<and> y < height DIEHARD"
    unfolding isAlive_def by blast
  then have "0 \<le> x" "x \<le> 8" "0 \<le> y" "y < 3"
    by (simp_all add: DIEHARD_def)
  then have "x \<in> {0, 1, 2, 3, 4, 5, 6, 7, 8}" "y \<in> {0, 1, 2}"
    using count_cases [of x] by auto
  with a show "(x, y) \<in> {(7, 0), (0, 1), (1, 1), (1, 2), (5, 2), (6, 2), (7, 2)}"
    by (elim insertE emptyE; simp add: isAlive_def DIEHARD_def)
next
  assume "(x, y) \<in> {(7, 0), (0, 1), (1, 1), (1, 2), (5, 2), (6, 2), (7, 2)}"
  then show "isAlive DIEHARD x y"
    by (elim insertE emptyE; simp add: isAlive_def DIEHARD_def)
qed

lemma footprint_diehard:
  "footprint (px, py, DIEHARD) =
     {(px + 7, py), (px, py + 1), (px + 1, py + 1), (px + 1, py + 2),
      (px + 5, py + 2), (px + 6, py + 2), (px + 7, py + 2)}"
  by (auto simp: footprint_def diehard_mask)

lemma footprint_diehard_card: "card (footprint (px, py, DIEHARD)) = 7"
  unfolding footprint_diehard by simp


lemma seed_diehard:
  assumes "roles_ok st" "\<forall>x y. inb x y \<longrightarrow> state st (now st) x y = 0"
    "placements 1 (rnd st) = [(px, py, DIEHARD)]"
  shows "\<exists>st'. seed 1 st = Some st'
           \<and> {(x, y). inb x y \<and> current st' x y = 2} = footprint (px, py, DIEHARD)
           \<and> activity (current st') = 7"
proof -
  have f: "fst (draw (rnd st)) = (px, py, DIEHARD)"
    using assms(3) by simp
  from seed_seeded [OF assms(1), of 1] obtain st'
    where 1: "seed 1 st = Some st'" and 2: "seeded (footprint (px, py, DIEHARD)) st st'"
    by (auto simp: f)
  have "(px, py, DIEHARD) \<in> set (placements 1 (rnd st))"
    unfolding assms(3) by simp
  from placement_in_bounds [OF this] have 3: "footprint (px, py, DIEHARD) \<subseteq> grid_box"
    by (auto simp: footprint_def in_grid_box inb_def)
  from seeded_dead_grid [OF assms(2) 2 3] 1 show ?thesis
    by (simp add: current_def footprint_diehard_card)
qed

text \<open>
  C7, as the code has it. The mask of \<open>DIEHARD\<close> holds 7 entries 1, not 8: on a grid
  that is all Dead (activity 0), a call \<^verbatim>\<open>seed(1)\<close> that draws \<open>DIEHARD\<close> leaves exactly
  the 7 cells under the mask in state 2, all of them inside the grid in the 8 x 3
  rectangle at the drawn origin, which lies in the inset rectangle; the activity of the
  grid is then 7.
\<close>

theorem seed_diehard_seven:
  assumes "roles_ok st" "\<forall>x y. inb x y \<longrightarrow> state st (now st) x y = 0"
    "placements 1 (rnd st) = [(px, py, DIEHARD)]"
  shows "activity (current st) = 0
     \<and> 10 \<le> px \<and> px < WIDTH - 10 \<and> 10 \<le> py \<and> py < HEIGHT - 10
     \<and> (\<exists>st'. seed 1 st = Some st'
           \<and> {(x, y). inb x y \<and> current st' x y = 2} = footprint (px, py, DIEHARD)
           \<and> card {(x, y). inb x y \<and> current st' x y = 2} = 7
           \<and> (\<forall>x y. inb x y \<and> current st' x y = 2 \<longrightarrow>
                 px \<le> x \<and> x < px + 8 \<and> py \<le> y \<and> y < py + 3)
           \<and> activity (current st') = 7)"
proof -
  have 0: "activity (current st) = 0"
    unfolding current_def using dead_grid_activity [OF assms(2)] .
  have "(px, py, DIEHARD) \<in> set (placements 1 (rnd st))"
    unfolding assms(3) by simp
  from placements_range [OF this]
  have 1: "10 \<le> px \<and> px < WIDTH - 10 \<and> 10 \<le> py \<and> py < HEIGHT - 10"
    by simp
  from seed_diehard [OF assms] obtain st'
    where 2: "seed 1 st = Some st'"
      and 3: "{(x, y). inb x y \<and> current st' x y = 2} = footprint (px, py, DIEHARD)"
      and 4: "activity (current st') = 7"
    by blast
  have 5: "card {(x, y). inb x y \<and> current st' x y = 2} = 7"
    unfolding 3 by (rule footprint_diehard_card)
  have 6: "px \<le> x \<and> x < px + 8 \<and> py \<le> y \<and> y < py + 3"
    if "inb x y \<and> current st' x y = 2" for x y
  proof -
    from that 3 have "(x, y) \<in> footprint (px, py, DIEHARD)"
      by blast
    then show ?thesis
      unfolding footprint_diehard by auto
  qed
  from 0 1 2 3 4 5 6 show ?thesis
    by blast
qed

theorem seed_diehard_seven_witness:
  "roles_ok (init nines) \<and> state (init nines) (now (init nines)) 5 5 = 0
   \<and> placements 1 (rnd (init nines)) = [(19, 19, DIEHARD)]
   \<and> (\<exists>st'. seed 1 (init nines) = Some st' \<and> activity (current st') = 7)"
proof -
  have d: "\<forall>x y. inb x y \<longrightarrow> state (init nines) (now (init nines)) x y = 0"
    by (simp add: init_simps)
  have p: "placements 1 (rnd (init nines)) = [(19, 19, DIEHARD)]"
    by (simp add: init_simps draw_nines)
  from seed_diehard_seven [OF roles_ok_init d p] p show ?thesis
    by (auto simp: roles_ok_init init_simps)
qed

theorem seed_diehard_not_eight:
  "activity (current (init nines)) = 0
   \<and> placements 1 (rnd (init nines)) = [(19, 19, DIEHARD)]
   \<and> map_option (activity \<circ> current) (seed 1 (init nines)) = Some 7
   \<and> map_option (activity \<circ> current) (seed 1 (init nines)) \<noteq> Some 8"
proof -
  have d: "\<forall>x y. inb x y \<longrightarrow> state (init nines) (now (init nines)) x y = 0"
    by (simp add: init_simps)
  have p: "placements 1 (rnd (init nines)) = [(19, 19, DIEHARD)]"
    by (simp add: init_simps draw_nines)
  have 0: "activity (current (init nines)) = 0"
    unfolding current_def using dead_grid_activity [OF d] .
  from seed_diehard [OF roles_ok_init d p] 0 p show ?thesis
    by auto
qed

section \<open>The cycle driver\<close>

lemma transition_count:
  assumes "roles_ok st" "valid_grid (state st (now st))"
  shows "\<exists>st1 lc. transition st = Some (st1, lc) \<and> roles_ok st1
     \<and> valid_grid (state st1 (nxt st1))
     \<and> state st1 (now st1) = state st (now st)
     \<and> lc = activity (state st1 (nxt st1))
     \<and> lc = int (card {(x, y). inb x y \<and> aliveFlag (state st1 (nxt st1) x y) = 1})"
proof -
  from transition_result [OF assms] obtain st1
    where t: "transition st = Some (st1, activity (next_state (state st (now st))))"
      and w: "roles_ok st1" and n: "state st1 (now st1) = state st (now st)"
      and g: "same_grid (state st1 (nxt st1)) (next_state (state st (now st)))"
      and v: "valid_grid (state st1 (nxt st1))"
    by blast
  have a: "activity (next_state (state st (now st))) = activity (state st1 (nxt st1))"
    using activity_cong [OF g] by simp
  from t w v n a activity_card [OF v] show ?thesis
    by simp
qed

lemma threshold: "HEIGHT * WIDTH div 25 = 327"
  by (simp add: HEIGHT_def WIDTH_def)

text \<open>
  C3. In a pass of \<^verbatim>\<open>loop\<close> the accumulator \<^verbatim>\<open>lc\<close> is the number of cells of the grid
  just computed whose state has the alive flag 1. After the swap, the pass calls
  \<^verbatim>\<open>seed(1)\<close> when \<^verbatim>\<open>lc\<close> is below \<open>HEIGHT * WIDTH / 25 = 327\<close>, and the call returns;
  otherwise it ends with the state as the transition and the swap left it.
\<close>

theorem reseed_iff_low_activity:
  assumes "roles_ok st" "valid_grid (state st (now st))"
  shows "\<exists>st1 lc. transition st = Some (st1, lc)
     \<and> lc = int (card {(x, y). inb x y \<and> aliveFlag (state st1 (nxt st1) x y) = 1})
     \<and> current (swap st1) = state st1 (nxt st1)
     \<and> HEIGHT * WIDTH div 25 = 327
     \<and> (lc < HEIGHT * WIDTH div 25 \<longrightarrow>
           loop st = seed 1 (swap st1) \<and> (\<exists>st2. loop st = Some st2))
     \<and> (\<not> lc < HEIGHT * WIDTH div 25 \<longrightarrow> loop st = Some (swap st1))"
proof -
  from transition_count [OF assms] obtain st1 lc
    where t: "transition st = Some (st1, lc)" and w: "roles_ok st1"
      and c: "lc = int (card {(x, y). inb x y \<and> aliveFlag (state st1 (nxt st1) x y) = 1})"
    by blast
  have s: "current (swap st1) = state st1 (nxt st1)"
    by (simp add: current_def swap_wf [OF w])
  from seed_seeded [OF swap_wf(1) [OF w], of 1] obtain st2
    where e: "seed 1 (swap st1) = Some st2"
    by blast
  have l: "loop st = (if lc < HEIGHT * WIDTH div 25 then seed 1 (swap st1) else Some (swap st1))"
    by (simp add: loop_def t Let_def)
  from t c s e l threshold show ?thesis
    by simp
qed

theorem reseed_iff_low_activity_witness:
  "roles_ok (init nines) \<and> valid_grid (state (init nines) (now (init nines)))
   \<and> (\<exists>st1 lc. transition (init nines) = Some (st1, lc) \<and> lc = 0
         \<and> loop (init nines) = seed 1 (swap st1))"
proof -
  have v: "valid_grid (state (init nines) (now (init nines)))"
    by (simp add: valid_grid_def init_simps length_rules)
  from transition_result [OF roles_ok_init v] obtain st1
    where t: "transition (init nines) = Some (st1, activity (next_state (state (init nines) (now (init nines)))))"
    by blast
  have "count8 (state (init nines) (now (init nines))) x y = 0" for x y
    by (simp add: count8_def wrapped_neighbours_def offsets_def init_simps aliveFlag_simps)
  then have "next_state (state (init nines) (now (init nines))) x y = 0" for x y
    by (simp add: next_state_def init_simps nth_rules [simplified])
  then have z: "activity (next_state (state (init nines) (now (init nines)))) = 0"
    by (intro dead_grid_activity) simp
  from reseed_iff_low_activity [OF roles_ok_init v] t z threshold show ?thesis
    by (auto simp: roles_ok_init v)
qed


section \<open>Cells stay indices into the rule table\<close>

lemma valid_roles:
  assumes "roles_ok st"
  shows "valid st \<longleftrightarrow> valid_grid (state st (now st)) \<and> valid_grid (state st (nxt st))"
  using assms by (auto simp: roles_ok_def valid_def)

lemma valid_init: "valid (init r)"
  by (simp add: valid_def valid_grid_def init_def length_rules)

lemma next_state_entry:
  assumes "valid_grid g" "inb x y"
  shows "next_state g x y \<in> set (rule (rules ! nat (g x y)))"
proof -
  from assms have s: "0 \<le> g x y" "g x y < 5"
    by (simp_all add: valid_grid_def length_rules)
  from count8_range [OF assms(1), of x y] rule_rows [OF s]
  have "nat (count8 g x y) < length (rule (rules ! nat (g x y)))"
    by (simp add: nat_less_iff)
  then show ?thesis
    unfolding next_state_def by (rule nth_mem)
qed

lemma transition_valid:
  assumes "roles_ok st" "valid st"
  shows "\<exists>st' lc. transition st = Some (st', lc) \<and> roles_ok st' \<and> valid st'
     \<and> (\<forall>x y. inb x y \<longrightarrow>
           state st' (nxt st') x y \<in> set (rule (rules ! nat (state st (now st) x y))))"
proof -
  have v: "valid_grid (state st (now st))"
    using assms by (simp add: valid_roles)
  from transition_result [OF assms(1) v] obtain st'
    where t: "transition st = Some (st', activity (next_state (state st (now st))))"
      and w: "roles_ok st'" and n: "state st' (now st') = state st (now st)"
      and g: "same_grid (state st' (nxt st')) (next_state (state st (now st)))"
      and v': "valid_grid (state st' (nxt st'))"
    by blast
  have "valid st'"
    using v v' n by (simp add: valid_roles [OF w])
  moreover have "state st' (nxt st') x y \<in> set (rule (rules ! nat (state st (now st) x y)))"
    if "inb x y" for x y
    using g that next_state_entry [OF v that] by (simp add: same_grid_def)
  ultimately show ?thesis
    using t w by blast
qed

lemma swap_valid:
  assumes "roles_ok st"
  shows "valid (swap st) \<longleftrightarrow> valid st"
  by (simp add: valid_def swap_wf(4) [OF assms])

lemma seeded_valid:
  assumes "seeded S st st'" "valid st"
  shows "valid st'"
  using assms unfolding valid_def valid_grid_def seeded_def
  by (simp add: length_rules)

lemma seed_valid:
  assumes "roles_ok st" "valid st"
  shows "\<exists>st'. seed n st = Some st' \<and> roles_ok st' \<and> valid st'"
  using seed_seeded [OF assms(1), of n] seeded_valid [OF _ assms(2)] by blast

lemma loop_valid:
  assumes "roles_ok st" "valid st"
  shows "\<exists>st'. loop st = Some st' \<and> roles_ok st' \<and> valid st'"
proof -
  from transition_valid [OF assms] obtain st1 lc
    where t: "transition st = Some (st1, lc)" and w: "roles_ok st1" and v: "valid st1"
    by blast
  have w2: "roles_ok (swap st1)" and v2: "valid (swap st1)"
    using swap_wf(1) [OF w] swap_valid [OF w] v by simp_all
  show ?thesis
  proof (cases "lc < HEIGHT * WIDTH div 25")
    case True
    with seed_valid [OF w2 v2, of 1] t show ?thesis
      by (simp add: loop_def Let_def)
  next
    case False
    with w2 v2 t show ?thesis
      by (simp add: loop_def Let_def)
  qed
qed

lemma cycles_valid:
  assumes "roles_ok st" "valid st"
  shows "\<exists>st'. cycles k st = Some st' \<and> roles_ok st' \<and> valid st'"
  using assms
proof (induction k arbitrary: st)
  case 0
  then show ?case by simp
next
  case (Suc k)
  from loop_valid [OF Suc.prems] obtain st1
    where "loop st = Some st1" "roles_ok st1" "valid st1"
    by blast
  with Suc.IH [of st1] show ?case
    by simp
qed

text \<open>
  C2. Every cell of both buffers is an index into the rule table, 0 to 4: at the start,
  where both grids are all Dead; after a transition, which writes entries of the
  \<^verbatim>\<open>rule\<close> row of the cell's state; after a call of \<^verbatim>\<open>seed\<close>; and so after every
  number of passes of \<^verbatim>\<open>loop\<close>, none of which reads or writes outside an array.
\<close>

theorem cells_always_valid:
  "valid (init r)
   \<and> (roles_ok st \<and> valid st \<longrightarrow>
        (\<exists>st' lc. transition st = Some (st', lc) \<and> valid st'
           \<and> (\<forall>x y. inb x y \<longrightarrow>
                 state st' (nxt st') x y \<in> set (rule (rules ! nat (state st (now st) x y))))))
   \<and> (roles_ok st \<and> valid st \<longrightarrow> (\<exists>st'. seed n st = Some st' \<and> valid st'))
   \<and> (\<exists>st'. cycles k (init r) = Some st' \<and> valid st'
         \<and> (\<forall>b x y. b \<in> {0, 1} \<and> inb x y \<longrightarrow> state st' b x y \<in> {0, 1, 2, 3, 4}))"
proof -
  from cycles_valid [OF roles_ok_init valid_init, of k r] obtain st'
    where c: "cycles k (init r) = Some st'" and v: "valid st'"
    by blast
  have "state st' b x y \<in> {0, 1, 2, 3, 4}" if "b \<in> {0, 1} \<and> inb x y" for b x y
  proof -
    from that v have "0 \<le> state st' b x y \<and> state st' b x y < 5"
      by (auto simp: valid_def valid_grid_def length_rules)
    then show ?thesis
      using state_cases by blast
  qed
  with c v have 4: "\<exists>st'. cycles k (init r) = Some st' \<and> valid st'
         \<and> (\<forall>b x y. b \<in> {0, 1} \<and> inb x y \<longrightarrow> state st' b x y \<in> {0, 1, 2, 3, 4})"
    by blast
  have 2: "roles_ok st \<and> valid st \<longrightarrow>
        (\<exists>st' lc. transition st = Some (st', lc) \<and> valid st'
           \<and> (\<forall>x y. inb x y \<longrightarrow>
                 state st' (nxt st') x y \<in> set (rule (rules ! nat (state st (now st) x y)))))"
  proof
    assume a: "roles_ok st \<and> valid st"
    then have "roles_ok st" "valid st"
      by simp_all
    from transition_valid [OF this] obtain st' lc
      where "transition st = Some (st', lc)" "valid st'"
        "\<forall>x y. inb x y \<longrightarrow>
           state st' (nxt st') x y \<in> set (rule (rules ! nat (state st (now st) x y)))"
      by blast
    then show "\<exists>st' lc. transition st = Some (st', lc) \<and> valid st'
           \<and> (\<forall>x y. inb x y \<longrightarrow>
                 state st' (nxt st') x y \<in> set (rule (rules ! nat (state st (now st) x y))))"
      by (intro exI conjI)
  qed
  have 3: "roles_ok st \<and> valid st \<longrightarrow> (\<exists>st'. seed n st = Some st' \<and> valid st')"
  proof
    assume a: "roles_ok st \<and> valid st"
    then have "roles_ok st" "valid st"
      by simp_all
    from seed_valid [OF this, of n] show "\<exists>st'. seed n st = Some st' \<and> valid st'"
      by (elim exE conjE) (intro exI conjI)
  qed
  show ?thesis
    by (intro conjI valid_init 2 3 4)
qed

theorem cells_always_valid_witness:
  "roles_ok (init nines) \<and> valid (init nines)
   \<and> (\<exists>st' lc. transition (init nines) = Some (st', lc) \<and> valid st')
   \<and> (\<exists>st'. seed 1 (init nines) = Some st' \<and> valid st')
   \<and> (\<exists>st'. cycles 3 (init nines) = Some st' \<and> valid st')"
proof -
  note t = cells_always_valid [of nines "init nines" 1 3]
  have b: "roles_ok (init nines) \<and> valid (init nines)"
    by (intro conjI roles_ok_init t [THEN conjunct1])
  from t [THEN conjunct2, THEN conjunct1, THEN mp, OF b] obtain st1 lc
    where "transition (init nines) = Some (st1, lc)" "valid st1"
    by (elim exE conjE)
  then have 2: "\<exists>st' lc. transition (init nines) = Some (st', lc) \<and> valid st'"
    by (intro exI conjI)
  note 3 = t [THEN conjunct2, THEN conjunct2, THEN conjunct1, THEN mp, OF b]
  from t [THEN conjunct2, THEN conjunct2, THEN conjunct2] obtain st3
    where "cycles 3 (init nines) = Some st3" "valid st3"
    by (elim exE conjE)
  then have 4: "\<exists>st'. cycles 3 (init nines) = Some st' \<and> valid st'"
    by (intro exI conjI)
  from b 2 3 4 show ?thesis
    by (intro conjI) simp_all
qed

section \<open>Startup checks the hardware only\<close>

lemma err_diverges: "err x i = None"
proof -
  have "False" if a: "err x i = Some y" for y
  proof -
    have "(case (x, i) of (a, b) \<Rightarrow> \<lambda>_. False) y"
    proof (rule err.raw_induct [where P = "\<lambda>_ _ _. False"])
      show "(case (x, i) of (a, b) \<Rightarrow> err a b) = Some y"
        using a by simp
    qed blast
    then show False
      by simp
  qed
  then show ?thesis
    by (cases "err x i") auto
qed

lemma setup_board_eq:
  "setup_board status_ok accel_ok entropy = (if status_ok \<and> accel_ok then Some (init entropy) else None)"
  by (simp add: setup_board_def err_diverges)

lemma rules_total:
  assumes "r \<in> set rules"
  shows "length (rule r) = 9 \<and> (\<forall>v \<in> set (rule r). 0 \<le> v \<and> v < int (length rules))"
  using assms by (auto simp: rules_def)

lemma wide_overflows: "seed_loop [WIDE] 10 1 0 (init far) = None"
  by (simp add: seed_loop.simps seed_one_def random_range_def random_below_def far_def
      stamp_y.simps stamp_x.simps index_def set_cell_def init_def WIDE_def WIDTH_def HEIGHT_def)


text \<open>
  C8, as the code has it. \<^verbatim>\<open>setup\<close> stops the sketch for two reasons only, a display
  that does not start and an accelerometer that is not found; it reads neither the shape
  library nor the rule table. The tables of the sketch keep the invariants by their
  contents: every shape has as many mask entries as its extent says and fits the inset
  of 10, and every row of the rule table has 9 entries, each an index into the table.
\<close>

theorem setup_checks_hardware_only:
  "setup_board status_ok accel_ok entropy
     = (if status_ok \<and> accel_ok then Some (init entropy) else None)
   \<and> (\<forall>sh \<in> set seeds. extent_within 10 sh
          \<and> int (length (shape sh)) = width sh * height sh)
   \<and> (\<forall>r \<in> set rules. length (rule r) = 9
          \<and> (\<forall>v \<in> set (rule r). 0 \<le> v \<and> v < int (length rules)))"
proof -
  have "extent_within 10 sh \<and> int (length (shape sh)) = width sh * height sh"
    if "sh \<in> set seeds" for sh
    using seeds_extent [OF that] by (simp add: extent_within_def)
  with setup_board_eq rules_total show ?thesis
    by blast
qed

theorem setup_checks_hardware_only_witness:
  "setup_board True True nines = Some (init nines) \<and> setup_board True False nines = None
   \<and> setup_board False True nines = None \<and> extent_within 10 DIEHARD"
proof -
  have d: "DIEHARD \<in> set seeds"
    by (simp add: seeds_def)
  from setup_checks_hardware_only [of True True nines]
    setup_checks_hardware_only [of True False nines]
    setup_checks_hardware_only [of False True nines] d
  show ?thesis
    by auto
qed

text \<open>
  A library with a shape 12 wide breaks the invariant; \<^verbatim>\<open>setup\<close> returns as before,
  and the first pass of the seeder writes at column 128.
\<close>

theorem setup_accepts_wide_shape:
  "\<not> extent_within 10 WIDE
   \<and> setup_board True True far = Some (init far)
   \<and> seed_loop [WIDE] 10 1 0 (init far) = None"
  by (simp add: extent_within_def WIDE_def [THEN arg_cong, of width] setup_board_eq wide_overflows)

end
